theory Spec2Isabelle
  imports Complex_Main "HOL-Library.Word"
begin

section \<open>Contrast audit of symbol artwork: the pixel-classification and statistics core\<close>

text \<open>
  The development embeds the two call sites of the contrast engine: the batch script
  (\<^verbatim>\<open>symbol_contrast.js\<close>, function \<^verbatim>\<open>analyzeOne\<close>) and the browser page
  (\<^verbatim>\<open>web/app.js\<close>, function \<^verbatim>\<open>analyze\<close>).

  Conventions of the embedding.
  \<^item> A JavaScript number is an IEEE double; here it is a \<^typ>\<open>real\<close>. The luminances and
    the ratios are the exact values of their formulas. The interpolation of \<^verbatim>\<open>percentile\<close>
    is rounded operation by operation as doubles are (\<open>fl\<close>), because the order between
    two percentiles depends on that rounding.
    The options that \<^verbatim>\<open>parseInt\<close> produces are integers, the others reals; an option that
    failed to parse (\<^verbatim>\<open>NaN\<close>) is not modelled.
  \<^item> The RGBA byte buffer is a row-major list of pixels with four \<^typ>\<open>8 word\<close> channels;
    the offset arithmetic \<^verbatim>\<open>(y * width + x) * 4 + c\<close> is the selection of channel \<open>c\<close>
    of pixel \<open>y * width + x\<close>.
  \<^item> A \<^verbatim>\<open>Uint8Array\<close> mask is a \<^typ>\<open>bool list\<close>; reading it out of range gives
    \<^verbatim>\<open>undefined\<close>, which is falsy, and writing it out of range does nothing.
  \<^item> The values \<^verbatim>\<open>null\<close>, \<^verbatim>\<open>undefined\<close> and \<^verbatim>\<open>NaN\<close> that the statistics can hold
    are constructors of \<open>jsnum\<close>.
  \<^item> A loop that fills an array cell by cell is the list of the cell values; a loop that
    only looks for one element that passes a test is \<open>list_ex\<close>; the two worklist loops, which
    are the ones that need an argument to terminate, are \<^theory_text>\<open>partial_function\<close>s with
    \<open>None\<close> for a run that does not return.
  \<^item> Widths, heights and indices are natural numbers. The source subtracts 1 from a width
    or a height and steps back from an index only where the result is not negative on an
    image with positive width and height, which is what \<open>image_ok\<close> asks for.
  \<^item> Decoding (\<^verbatim>\<open>sharp\<close>, the canvas), the reports and the fields \<^verbatim>\<open>file\<close> and \<^verbatim>\<open>params\<close> of
    the batch result, which repeat the inputs, are left out.
\<close>

subsection \<open>WCAG contrast ratio\<close>

type_synonym rgb = "nat \<times> nat \<times> nat"

definition srgbToLinear :: "real \<Rightarrow> real" where
  "srgbToLinear c = (if c \<le> 0.04045 then c / 12.92 else ((c + 0.055) / 1.055) powr 2.4)"

definition relLuminance :: "real \<Rightarrow> real \<Rightarrow> real \<Rightarrow> real" where
  "relLuminance r8 g8 b8 =
     (let r = srgbToLinear (r8 / 255);
          g = srgbToLinear (g8 / 255);
          b = srgbToLinear (b8 / 255)
      in 0.2126 * r + 0.7152 * g + 0.0722 * b)"

text \<open>\<^verbatim>\<open>Math.round\<close> rounds to the nearest integer, a half towards plus infinity.\<close>

definition math_round :: "real \<Rightarrow> int" where
  "math_round v = \<lfloor>v + 1 / 2\<rfloor>"

definition composite :: "nat \<Rightarrow> nat \<Rightarrow> nat \<Rightarrow> nat \<Rightarrow> rgb \<Rightarrow> int \<times> int \<times> int" where
  "composite r8 g8 b8 a8 bg =
     (case bg of (bg0, bg1, bg2) \<Rightarrow>
        let a = real a8 / 255
        in (math_round (a * real r8 + (1 - a) * real bg0),
            math_round (a * real g8 + (1 - a) * real bg1),
            math_round (a * real b8 + (1 - a) * real bg2)))"

text \<open>The batch script's ratio, through \<open>composite\<close>.\<close>

definition contrastRatioPixelVsBg :: "nat \<Rightarrow> nat \<Rightarrow> nat \<Rightarrow> nat \<Rightarrow> rgb \<Rightarrow> real" where
  "contrastRatioPixelVsBg r8 g8 b8 a8 bg =
     (case composite r8 g8 b8 a8 bg of (cr, cg, cb) \<Rightarrow>
      case bg of (bg0, bg1, bg2) \<Rightarrow>
        let Lp = relLuminance (real_of_int cr) (real_of_int cg) (real_of_int cb);
            Lb = relLuminance (real bg0) (real bg1) (real bg2);
            L1 = max Lp Lb;
            L2 = min Lp Lb
        in (L1 + 0.05) / (L2 + 0.05))"

text \<open>The browser page's ratio, with the compositing written inline.\<close>

definition contrastRatioPixelVsBg_web :: "nat \<Rightarrow> nat \<Rightarrow> nat \<Rightarrow> nat \<Rightarrow> rgb \<Rightarrow> real" where
  "contrastRatioPixelVsBg_web r8 g8 b8 a8 bg =
     (case bg of (bg0, bg1, bg2) \<Rightarrow>
        let a = real a8 / 255;
            cr = math_round (a * real r8 + (1 - a) * real bg0);
            cg = math_round (a * real g8 + (1 - a) * real bg1);
            cb = math_round (a * real b8 + (1 - a) * real bg2);
            Lp = relLuminance (real_of_int cr) (real_of_int cg) (real_of_int cb);
            Lb = relLuminance (real bg0) (real bg1) (real bg2);
            L1 = max Lp Lb;
            L2 = min Lp Lb
        in (L1 + 0.05) / (L2 + 0.05))"

text \<open>A colour as \<^verbatim>\<open>parseColor\<close> and \<^verbatim>\<open>parseHexColor\<close> produce it: three channels up to 255.\<close>

definition rgb_ok :: "rgb \<Rightarrow> bool" where
  "rgb_ok bg = (case bg of (bg0, bg1, bg2) \<Rightarrow> bg0 \<le> 255 \<and> bg1 \<le> 255 \<and> bg2 \<le> 255)"

subsection \<open>Percentiles, statistics and the pass rule\<close>

datatype jsnum = JNull | JUndefined | JNaN | JNum real

text \<open>\<^verbatim>\<open>sorted[i]\<close>: \<^verbatim>\<open>undefined\<close> outside the array.\<close>

definition js_at :: "real list \<Rightarrow> int \<Rightarrow> real option" where
  "js_at xs i = (if 0 \<le> i \<and> i < int (length xs) then Some (xs ! nat i) else None)"

text \<open>The arithmetic of a double: each of \<^verbatim>\<open>*\<close>, \<^verbatim>\<open>+\<close> and \<^verbatim>\<open>-\<close> returns the double nearest to
  the exact result, and of two nearest ones the one whose last bit is 0. \<open>round_even\<close> is
  that choice among the integers; \<open>fl\<close> applies it at the spacing of the doubles around the
  result: 53 significant bits from \<open>2 powi (- 1022)\<close> upwards, the fixed spacing
  \<open>2 powi (- 1074)\<close> below. The overflow to \<^verbatim>\<open>Infinity\<close> is left out: a ratio is at most 21,
  and an index beyond the largest double is outside the array just as \<^verbatim>\<open>Infinity\<close> is.\<close>

definition round_even :: "real \<Rightarrow> int" where
  "round_even y =
     (let f = \<lfloor>y\<rfloor>;
          d = y - real_of_int f
      in if d < 1 / 2 then f else if 1 / 2 < d then f + 1 else if even f then f else f + 1)"

text \<open>The binary exponent of a positive number, found by doubling or halving until the
  number lies between 1 and 2.\<close>

function expo :: "real \<Rightarrow> int" where
  "expo x = (if x \<le> 0 then 0
             else if x < 1 then expo (2 * x) - 1
             else if 2 \<le> x then expo (x / 2) + 1
             else 0)"
  by pat_completeness auto
termination
proof (relation "measure (\<lambda>x. nat \<bar>\<lfloor>log 2 x\<rfloor>\<bar>)")
  show "wf (measure (\<lambda>x. nat \<bar>\<lfloor>log 2 x\<rfloor>\<bar>))" by simp
next
  fix x :: real
  assume a: "\<not> x \<le> 0" "x < 1"
  have "log 2 (2 * x) = log 2 x + 1" using a by (simp add: log_mult)
  then have f: "\<lfloor>log 2 (2 * x)\<rfloor> = \<lfloor>log 2 x\<rfloor> + 1" by simp
  have "log 2 x < 0" using a by simp
  then have "\<lfloor>log 2 x\<rfloor> \<le> - 1" by (simp add: floor_le_iff)
  then show "(2 * x, x) \<in> measure (\<lambda>x. nat \<bar>\<lfloor>log 2 x\<rfloor>\<bar>)" unfolding in_measure f by linarith
next
  fix x :: real
  assume a: "\<not> x \<le> 0" "\<not> x < 1" "2 \<le> x"
  have "log 2 (x / 2) = log 2 x - 1" using a by (simp add: log_divide)
  then have f: "\<lfloor>log 2 (x / 2)\<rfloor> = \<lfloor>log 2 x\<rfloor> - 1" by simp
  have "1 \<le> log 2 x" using a by (simp add: le_log_iff)
  then have "1 \<le> \<lfloor>log 2 x\<rfloor>" by (simp add: le_floor_iff)
  then show "(x / 2, x) \<in> measure (\<lambda>x. nat \<bar>\<lfloor>log 2 x\<rfloor>\<bar>)" unfolding in_measure f by linarith
qed

declare expo.simps [simp del]

definition fl :: "real \<Rightarrow> real" where
  "fl x =
     (if x = 0 then 0
      else
        let e = max (expo \<bar>x\<bar>) (- 1022);
            u = 2 powi (e - 52)
        in real_of_int (round_even (x / u)) * u)"

text \<open>\<^verbatim>\<open>percentile(sorted, p)\<close>. The length of the array and the results of \<^verbatim>\<open>Math.floor\<close> and
  \<^verbatim>\<open>Math.ceil\<close> are integers, which are doubles as they are; the product for the index, the
  two differences, the two products and the sum are rounded.\<close>

definition percentile :: "real list \<Rightarrow> real \<Rightarrow> jsnum" where
  "percentile srt p =
     (if srt = [] then JNull
      else
        let idx = fl (real (length srt - 1) * p);
            lo = \<lfloor>idx\<rfloor>;
            hi = \<lceil>idx\<rceil>
        in if lo = hi then (case js_at srt lo of None \<Rightarrow> JUndefined | Some v \<Rightarrow> JNum v)
           else
             let w = fl (idx - real_of_int lo)
             in (case (js_at srt lo, js_at srt hi) of
                   (Some u, Some v) \<Rightarrow> JNum (fl (fl (u * fl (1 - w)) + fl (v * w)))
                 | _ \<Rightarrow> JNaN))"

text \<open>\<^verbatim>\<open>v >= t\<close> for a statistic \<open>v\<close>: \<^verbatim>\<open>null\<close> converts to 0, \<^verbatim>\<open>undefined\<close> and
  \<^verbatim>\<open>NaN\<close> compare false.\<close>

fun js_ge :: "jsnum \<Rightarrow> real \<Rightarrow> bool" where
  "js_ge (JNum v) t = (t \<le> v)"
| "js_ge JNull t = (t \<le> 0)"
| "js_ge JUndefined t = False"
| "js_ge JNaN t = False"

record stats =
  count :: nat
  smin :: jsnum
  pX :: jsnum
  median :: jsnum
  pctBelow :: real

definition statsForRatios :: "real list \<Rightarrow> real \<Rightarrow> real \<Rightarrow> stats" where
  "statsForRatios ratios p below =
     (if ratios = [] then
        \<lparr>count = 0, smin = JNull, pX = JNull, median = JNull, pctBelow = 0\<rparr>
      else
        let s = sort ratios;
            pb = (100 * real (length (filter (\<lambda>x. x < below) ratios))) / real (length ratios)
        in \<lparr>count = length ratios, smin = JNum (s ! 0), pX = percentile s p,
            median = percentile s 0.5, pctBelow = pb\<rparr>)"

definition passByStats :: "stats \<Rightarrow> real \<Rightarrow> real \<Rightarrow> bool" where
  "passByStats st threshold maxPctBelow =
     (if count st = 0 then False
      else js_ge (pX st) threshold \<and> pctBelow st \<le> maxPctBelow)"

text \<open>The browser page sorts the ratios in place and builds the statistics and the verdict
  at the end of \<^verbatim>\<open>analyze\<close>.\<close>

record wstats =
  wcount :: nat
  wpX :: jsnum
  wmedian :: jsnum
  wmin :: jsnum
  wpctBelow :: real
  wbandCount :: nat

definition stats_web :: "real list \<Rightarrow> real \<Rightarrow> real \<Rightarrow> nat \<Rightarrow> wstats" where
  "stats_web ratios0 p threshold maskCount =
     (let ratios = sort ratios0;
          pb = (if length ratios = 0 then 0
                else (100 * real (length (filter (\<lambda>x. x < threshold) ratios))) / real (length ratios))
      in \<lparr>wcount = length ratios, wpX = percentile ratios p, wmedian = percentile ratios 0.5,
          wmin = (if ratios \<noteq> [] then JNum (ratios ! 0) else JNull),
          wpctBelow = pb, wbandCount = maskCount\<rparr>)"

definition pass_web :: "wstats \<Rightarrow> real \<Rightarrow> real \<Rightarrow> bool" where
  "pass_web st threshold maxPctBelow =
     (wcount st > 0 \<and> js_ge (wpX st) threshold \<and> wpctBelow st \<le> maxPctBelow)"


subsection \<open>Pixel buffers, masks and options\<close>

datatype pixel = Pixel (chan_r: "8 word") (chan_g: "8 word") (chan_b: "8 word") (chan_a: "8 word")

record image =
  width :: nat
  height :: nat
  pixels :: "pixel list"

text \<open>The buffer of a decoded image has one pixel for every cell of the grid.\<close>

definition image_ok :: "image \<Rightarrow> bool" where
  "image_ok img = (0 < width img \<and> 0 < height img \<and> length (pixels img) = width img * height img)"

text \<open>The option object. The batch script reads \<open>o_backgrounds\<close> and \<open>o_requireBoth\<close>; the
  browser page reads \<open>o_bg\<close>, \<open>o_minAlpha\<close>, \<open>o_sampleMode\<close> and \<open>o_strokeLumaMax\<close>; the other
  fields are read by both. The integer fields come from \<^verbatim>\<open>parseInt\<close>, the others from
  \<^verbatim>\<open>parseFloat\<close>.\<close>

record opts =
  o_nearBgDist :: int
  o_bandRadius :: int
  o_threshold :: real
  o_maxPctBelow :: real
  o_p :: real
  o_requireBoth :: bool
  o_backgrounds :: "(string \<times> rgb) list"
  o_segBg :: rgb
  o_alphaBg :: int
  o_bg :: rgb
  o_minAlpha :: int
  o_sampleMode :: string
  o_strokeLumaMax :: real

text \<open>Reading a mask: \<^verbatim>\<open>undefined\<close> out of range, which is falsy.\<close>

definition mget :: "bool list \<Rightarrow> nat \<Rightarrow> bool" where
  "mget m i = (i < length m \<and> m ! i)"

definition mcount :: "bool list \<Rightarrow> nat" where
  "mcount m = length (filter (\<lambda>v. v) m)"

text \<open>A mask filled by a scan over the rows and, in each row, over the columns: the cell
  \<open>y * W + x\<close> holds \<open>f x y\<close>.\<close>

definition grid :: "nat \<Rightarrow> nat \<Rightarrow> (nat \<Rightarrow> nat \<Rightarrow> 'a) \<Rightarrow> 'a list" where
  "grid W H f = concat (map (\<lambda>y. map (\<lambda>x. f x y) [0..<W]) [0..<H])"

subsection \<open>The near-background test\<close>

definition isNearBg :: "rgb \<Rightarrow> int \<Rightarrow> int \<Rightarrow> nat \<Rightarrow> nat \<Rightarrow> nat \<Rightarrow> nat \<Rightarrow> bool" where
  "isNearBg segBg nearBgDist alphaBg r g b a =
     (if int a \<le> alphaBg then True
      else case segBg of (s0, s1, s2) \<Rightarrow>
        let dr = int s0 - int r;
            dg = int s1 - int g;
            db = int s2 - int b
        in sqrt (real_of_int (dr * dr + dg * dg + db * db)) \<le> real_of_int nearBgDist)"

text \<open>The test on the pixel at index \<open>i\<close> of the buffer. Outside the buffer the four channels
  read as \<^verbatim>\<open>undefined\<close>, and both comparisons of \<open>isNearBg\<close> are then false.\<close>

definition nearAt :: "opts \<Rightarrow> pixel list \<Rightarrow> nat \<Rightarrow> bool" where
  "nearAt opt px i =
     (i < length px \<and>
      (case px ! i of Pixel r g b a \<Rightarrow>
         isNearBg (o_segBg opt) (o_nearBgDist opt) (o_alphaBg opt) (unat r) (unat g) (unat b) (unat a)))"

subsection \<open>Batch script: border-seeded flood fill with a stack\<close>

text \<open>The state of the fill is the mask \<^verbatim>\<open>bg\<close> and the array \<^verbatim>\<open>q\<close> of coordinate pairs, used
  as a stack (\<^verbatim>\<open>push\<close>, \<^verbatim>\<open>pop\<close>); the head of the list is the top of the stack.\<close>

type_synonym fill = "bool list \<times> (int \<times> int) list"

definition pushIf :: "nat \<Rightarrow> nat \<Rightarrow> (nat \<Rightarrow> bool) \<Rightarrow> int \<Rightarrow> int \<Rightarrow> fill \<Rightarrow> fill" where
  "pushIf W H near x y st =
     (case st of (bg, q) \<Rightarrow>
        if x < 0 \<or> y < 0 \<or> x \<ge> int W \<or> y \<ge> int H then st
        else
          let p = nat (y * int W + x)
          in if mget bg p then st
             else if near p then (bg[p := True], (x, y) # q)
             else st)"

definition seedBorder :: "nat \<Rightarrow> nat \<Rightarrow> (nat \<Rightarrow> bool) \<Rightarrow> fill \<Rightarrow> fill" where
  "seedBorder W H near st0 =
     (let st1 = fold (\<lambda>x st. pushIf W H near (int x) (int H - 1) (pushIf W H near (int x) 0 st))
                  [0..<W] st0
      in fold (\<lambda>y st. pushIf W H near (int W - 1) (int y) (pushIf W H near 0 (int y) st))
           [0..<H] st1)"

text \<open>One round of the loop: pop a pixel and try its four neighbours. The loop runs while
  the stack is not empty.\<close>

definition popStep :: "nat \<Rightarrow> nat \<Rightarrow> (nat \<Rightarrow> bool) \<Rightarrow> fill \<Rightarrow> fill" where
  "popStep W H near st =
     (case st of (bg, q) \<Rightarrow>
        (case q of
           [] \<Rightarrow> st
         | xy # rest \<Rightarrow>
             (case xy of (x, y) \<Rightarrow>
                pushIf W H near x (y - 1)
                  (pushIf W H near x (y + 1)
                    (pushIf W H near (x - 1) y
                      (pushIf W H near (x + 1) y (bg, rest)))))))"

partial_function (option) drain :: "nat \<Rightarrow> nat \<Rightarrow> (nat \<Rightarrow> bool) \<Rightarrow> fill \<Rightarrow> bool list option" where
  "drain W H near st =
     (if snd st = [] then Some (fst st) else drain W H near (popStep W H near st))"

definition floodFill :: "nat \<Rightarrow> nat \<Rightarrow> (nat \<Rightarrow> bool) \<Rightarrow> bool list option" where
  "floodFill W H near = drain W H near (seedBorder W H near (replicate (W * H) False, []))"

subsection \<open>Browser page: border-seeded flood fill with a queue\<close>

text \<open>The state is the mask \<^verbatim>\<open>bg\<close>, the written part of the array \<^verbatim>\<open>queue\<close> (its length is
  \<^verbatim>\<open>qTail\<close>) and \<^verbatim>\<open>qHead\<close>. An index is written to the queue only when its mask cell is set
  in the same step, so at most \<open>W * H\<close> entries are written and the array never overflows.\<close>

type_synonym wfill = "bool list \<times> nat list"

definition pushIf_web :: "(nat \<Rightarrow> bool) \<Rightarrow> nat \<Rightarrow> wfill \<Rightarrow> wfill" where
  "pushIf_web near idx st =
     (case st of (bg, queue) \<Rightarrow>
        if mget bg idx then st
        else if near idx then (bg[idx := True], queue @ [idx])
        else st)"

definition seedBorder_web :: "nat \<Rightarrow> nat \<Rightarrow> (nat \<Rightarrow> bool) \<Rightarrow> wfill \<Rightarrow> wfill" where
  "seedBorder_web W H near st0 =
     (let st1 = fold (\<lambda>x st. pushIf_web near ((H - 1) * W + x) (pushIf_web near x st)) [0..<W] st0
      in fold (\<lambda>y st. pushIf_web near (y * W + (W - 1)) (pushIf_web near (y * W) st)) [0..<H] st1)"

text \<open>One round of the loop: take the index at \<^verbatim>\<open>qHead\<close> and try its four neighbours. The
  loop runs while \<^verbatim>\<open>qHead < qTail\<close>.\<close>

definition shiftStep :: "nat \<Rightarrow> nat \<Rightarrow> (nat \<Rightarrow> bool) \<Rightarrow> wfill \<times> nat \<Rightarrow> wfill \<times> nat" where
  "shiftStep W H near st =
     (case st of (bq, qHead) \<Rightarrow>
        let idx = snd bq ! qHead;
            x = idx mod W;
            y = idx div W;
            s1 = (if x > 0 then pushIf_web near (idx - 1) bq else bq);
            s2 = (if x < W - 1 then pushIf_web near (idx + 1) s1 else s1);
            s3 = (if y > 0 then pushIf_web near (idx - W) s2 else s2);
            s4 = (if y < H - 1 then pushIf_web near (idx + W) s3 else s3)
        in (s4, qHead + 1))"

partial_function (option) drain_web ::
    "nat \<Rightarrow> nat \<Rightarrow> (nat \<Rightarrow> bool) \<Rightarrow> wfill \<times> nat \<Rightarrow> bool list option" where
  "drain_web W H near st =
     (if snd st < length (snd (fst st)) then drain_web W H near (shiftStep W H near st)
      else Some (fst (fst st)))"

definition floodFill_web :: "nat \<Rightarrow> nat \<Rightarrow> (nat \<Rightarrow> bool) \<Rightarrow> bool list option" where
  "floodFill_web W H near =
     drain_web W H near (seedBorder_web W H near (replicate (W * H) False, []), 0)"


subsection \<open>Edge band\<close>

text \<open>The neighbourhood scan of both call sites: some cell of the square of radius
  \<open>radius\<close> around \<open>(x, y)\<close>, clipped at the grid, is in \<open>bg\<close>. The scan stops at the first
  such cell; only its truth value is kept.\<close>

definition nearMask :: "nat \<Rightarrow> nat \<Rightarrow> bool list \<Rightarrow> int \<Rightarrow> nat \<Rightarrow> nat \<Rightarrow> bool" where
  "nearMask W H bg radius x y =
     list_ex (\<lambda>dy.
       list_ex (\<lambda>dx.
         let xx = int x + dx;
             yy = int y + dy
         in if xx < 0 \<or> yy < 0 \<or> xx \<ge> int W \<or> yy \<ge> int H then False
            else mget bg (nat (yy * int W + xx)))
         [- radius..radius])
       [- radius..radius]"

subsection \<open>Batch script: \<^verbatim>\<open>analyzeOne\<close>\<close>

definition fgMask :: "nat \<Rightarrow> nat \<Rightarrow> bool list \<Rightarrow> bool list" where
  "fgMask W H bg = grid W H (\<lambda>x y. \<not> mget bg (y * W + x))"

definition bandMask :: "nat \<Rightarrow> nat \<Rightarrow> bool list \<Rightarrow> bool list \<Rightarrow> int \<Rightarrow> bool list" where
  "bandMask W H bg fg radius = grid W H (\<lambda>x y. mget fg (y * W + x) \<and> nearMask W H bg radius x y)"

text \<open>\<^verbatim>\<open>worst\<close> starts at \<^verbatim>\<open>Infinity\<close> (here \<open>None\<close>) and is replaced by a strictly smaller
  ratio only, so \<^verbatim>\<open>worstPixel\<close> is the first pixel of the scan with the least ratio.\<close>

type_synonym scan = "real list \<times> real option \<times> (pixel \<times> nat \<times> nat) option"

definition scanCell :: "nat \<Rightarrow> pixel list \<Rightarrow> bool list \<Rightarrow> rgb \<Rightarrow> nat \<times> nat \<Rightarrow> scan \<Rightarrow> scan" where
  "scanCell W raw msk bgColor xy acc =
     (case xy of (x, y) \<Rightarrow>
      case acc of (ratios, worst, worstPixel) \<Rightarrow>
        let p = y * W + x
        in if \<not> mget msk p then acc
           else
             (case raw ! p of Pixel r g b a \<Rightarrow>
                let cr = contrastRatioPixelVsBg (unat r) (unat g) (unat b) (unat a) bgColor
                in if (case worst of None \<Rightarrow> True | Some w \<Rightarrow> cr < w)
                   then (ratios @ [cr], Some cr, Some (Pixel r g b a, x, y))
                   else (ratios @ [cr], worst, worstPixel)))"

record collected =
  c_stats :: stats
  c_pass :: bool
  c_worst :: "real option"
  c_worstPixel :: "(pixel \<times> nat \<times> nat) option"

text \<open>The scan of \<^verbatim>\<open>collectRatios\<close> over the rows and columns: the ratios in scan order, the
  least ratio and its pixel.\<close>

definition scanRatios :: "image \<Rightarrow> bool list \<Rightarrow> rgb \<Rightarrow> scan" where
  "scanRatios img msk bgColor =
     fold (scanCell (width img) (pixels img) msk bgColor)
       (grid (width img) (height img) (\<lambda>x y. (x, y))) ([], None, None)"

definition collectRatios :: "image \<Rightarrow> opts \<Rightarrow> bool list \<Rightarrow> rgb \<Rightarrow> collected" where
  "collectRatios img opt msk bgColor =
     (case scanRatios img msk bgColor of
        (ratios, worst, worstPixel) \<Rightarrow>
          let st = statsForRatios ratios (o_p opt) (o_threshold opt)
          in \<lparr>c_stats = st, c_pass = passByStats st (o_threshold opt) (o_maxPctBelow opt),
              c_worst = worst, c_worstPixel = worstPixel\<rparr>)"

datatype error = SizeError

record segmentation =
  fgPixels :: nat
  bandPixels :: nat

record result =
  r_size :: "nat \<times> nat"
  r_segmentation :: segmentation
  r_backgrounds :: "string \<rightharpoonup> collected"
  r_overall :: bool
  r_byBackground :: "string \<rightharpoonup> bool"

text \<open>The masks of the batch script, as \<^verbatim>\<open>analyzeOne\<close> builds them before it scores.\<close>

definition masks_batch :: "image \<Rightarrow> opts \<Rightarrow> (bool list \<times> bool list \<times> bool list) option" where
  "masks_batch img opt =
     (case floodFill (width img) (height img) (nearAt opt (pixels img)) of
        None \<Rightarrow> None
      | Some bg \<Rightarrow>
          let fg = fgMask (width img) (height img) bg;
              band = bandMask (width img) (height img) bg fg (o_bandRadius opt)
          in Some (bg, fg, band))"

text \<open>\<^verbatim>\<open>analyzeOne\<close> on a decoded image. \<open>None\<close> stands for a run that does not return,
  \<open>Some (Inl SizeError)\<close> for the exception on a missing width or height. Every label
  looked up in \<^verbatim>\<open>perBg\<close> was stored by the loop before.\<close>

definition analyzeOne :: "image \<Rightarrow> opts \<Rightarrow> (error + result) option" where
  "analyzeOne img opt =
     (if width img = 0 \<or> height img = 0 then Some (Inl SizeError)
      else
        case masks_batch img opt of
          None \<Rightarrow> None
        | Some (bg, fg, band) \<Rightarrow>
            let perBg = fold (\<lambda>b m. m(fst b \<mapsto> collectRatios img opt band (snd b)))
                          (o_backgrounds opt) Map.empty;
                passes = map (\<lambda>b. c_pass (the (perBg (fst b)))) (o_backgrounds opt);
                overall = (if o_requireBoth opt then list_all (\<lambda>v. v) passes
                           else list_ex (\<lambda>v. v) passes);
                byBackground = fold (\<lambda>b m. m(fst b \<mapsto> c_pass (the (perBg (fst b)))))
                                 (o_backgrounds opt) Map.empty
            in Some (Inr \<lparr>r_size = (width img, height img),
                           r_segmentation = \<lparr>fgPixels = mcount fg, bandPixels = mcount band\<rparr>,
                           r_backgrounds = perBg, r_overall = overall,
                           r_byBackground = byBackground\<rparr>))"

subsection \<open>Browser page: \<^verbatim>\<open>analyze\<close>\<close>

text \<open>Tier 2: when the fill marked nothing, every pixel that passes the test is marked.\<close>

definition markAll :: "(nat \<Rightarrow> bool) \<Rightarrow> nat \<Rightarrow> bool list \<times> nat \<Rightarrow> bool list \<times> nat" where
  "markAll near tot st =
     fold (\<lambda>i bc. if near i then ((fst bc)[i := True], snd bc + 1) else bc) [0..<tot] st"

definition segment_web :: "image \<Rightarrow> opts \<Rightarrow> (bool list \<times> nat) option" where
  "segment_web img opt =
     (let tot = width img * height img
      in case floodFill_web (width img) (height img) (nearAt opt (pixels img)) of
           None \<Rightarrow> None
         | Some bg \<Rightarrow>
             let bgCount = length (filter (\<lambda>i. mget bg i) [0..<tot])
             in if bgCount = 0 then Some (markAll (nearAt opt (pixels img)) tot (bg, bgCount))
                else Some (bg, bgCount))"

text \<open>The band: the frame along the border when no background was found (tier 3), the
  foreground pixels near the background otherwise.\<close>

definition band_web :: "image \<Rightarrow> opts \<Rightarrow> bool list \<times> nat \<Rightarrow> bool list" where
  "band_web img opt bc =
     (case bc of (bg, bgCount) \<Rightarrow>
        if bgCount = 0 then
          let edge = max 0 (o_bandRadius opt)
          in grid (width img) (height img)
               (\<lambda>x y. int x \<le> edge \<or> int y \<le> edge \<or> int x \<ge> int (width img) - 1 - edge
                        \<or> int y \<ge> int (height img) - 1 - edge)
        else
          grid (width img) (height img)
            (\<lambda>x y. \<not> mget bg (y * width img + x)
                     \<and> nearMask (width img) (height img) bg (o_bandRadius opt) x y))"

definition pixelLuminance :: "pixel \<Rightarrow> real" where
  "pixelLuminance px =
     (case px of Pixel r g b a \<Rightarrow> relLuminance (real (unat r)) (real (unat g)) (real (unat b)))"

definition sampleMask_web :: "image \<Rightarrow> opts \<Rightarrow> bool list \<Rightarrow> bool list \<Rightarrow> bool list" where
  "sampleMask_web img opt bg band =
     (let tot = width img * height img
      in if o_sampleMode opt = ''all'' then map (\<lambda>i. \<not> mget bg i) [0..<tot]
         else if o_sampleMode opt = ''stroke'' then
           map (\<lambda>i. mget band i \<and> pixelLuminance (pixels img ! i) \<le> o_strokeLumaMax opt) [0..<tot]
         else band)"

text \<open>The scoring loop: a pixel of the mask is skipped when its alpha is below
  \<^verbatim>\<open>minAlpha\<close>; the others give one ratio each, in the order of their indices.\<close>

definition sampled_web :: "image \<Rightarrow> opts \<Rightarrow> bool list \<Rightarrow> nat list" where
  "sampled_web img opt msk =
     filter (\<lambda>i. mget msk i \<and> \<not> int (unat (chan_a (pixels img ! i))) < o_minAlpha opt)
       [0..<width img * height img]"

definition ratioAt_web :: "image \<Rightarrow> opts \<Rightarrow> nat \<Rightarrow> real" where
  "ratioAt_web img opt i =
     (case pixels img ! i of Pixel r g b a \<Rightarrow>
        contrastRatioPixelVsBg_web (unat r) (unat g) (unat b) (unat a) (o_bg opt))"

record wresult =
  w_stats :: wstats
  w_pass :: bool
  w_mask :: "bool list"

definition score_web :: "image \<Rightarrow> opts \<Rightarrow> bool list \<Rightarrow> wresult" where
  "score_web img opt msk =
     (let smp = sampled_web img opt msk;
          ratios = map (ratioAt_web img opt) smp;
          failing = map (\<lambda>i. i \<in> set smp \<and> ratioAt_web img opt i < o_threshold opt)
                      [0..<width img * height img];
          st = stats_web ratios (o_p opt) (o_threshold opt) (mcount msk)
      in \<lparr>w_stats = st, w_pass = pass_web st (o_threshold opt) (o_maxPctBelow opt),
          w_mask = failing\<rparr>)"

text \<open>The masks of the browser page: background, band and sample mask.\<close>

definition masks_web :: "image \<Rightarrow> opts \<Rightarrow> (bool list \<times> bool list \<times> bool list) option" where
  "masks_web img opt =
     (case segment_web img opt of
        None \<Rightarrow> None
      | Some bc \<Rightarrow>
          let band = band_web img opt bc
          in Some (fst bc, band, sampleMask_web img opt (fst bc) band))"

definition analyze :: "image \<Rightarrow> opts \<Rightarrow> wresult option" where
  "analyze img opt =
     (case masks_web img opt of
        None \<Rightarrow> None
      | Some (bg, band, msk) \<Rightarrow> Some (score_web img opt msk))"


subsection \<open>Inputs used in the examples\<close>

text \<open>The options of a run without flags, as \<^verbatim>\<open>main\<close> fills them in: distance 160, band radius
  2, threshold 3, at most 2 percent below, percentile 0.05, white and black backgrounds,
  segmentation against white, alpha cutoff 10. For the browser page: white background, minimum
  alpha 200, the band as sample mode.\<close>

definition default_opts :: opts where
  "default_opts =
     \<lparr>o_nearBgDist = 160, o_bandRadius = 2, o_threshold = 3, o_maxPctBelow = 2, o_p = 0.05,
      o_requireBoth = False,
      o_backgrounds = [(''white'', (255, 255, 255)), (''black'', (0, 0, 0))],
      o_segBg = (255, 255, 255), o_alphaBg = 10, o_bg = (255, 255, 255), o_minAlpha = 200,
      o_sampleMode = ''band'', o_strokeLumaMax = 0.5\<rparr>"

text \<open>A 10 by 10 image: an opaque mid-grey square of 4 by 4 pixels, centred, on opaque white.\<close>

definition greySquare :: image where
  "greySquare =
     \<lparr>width = 10, height = 10,
      pixels = grid 10 10 (\<lambda>x y. if 3 \<le> x \<and> x \<le> 6 \<and> 3 \<le> y \<and> y \<le> 6
                                  then Pixel 130 130 130 255 else Pixel 255 255 255 255)\<rparr>"

text \<open>The cells of the grey square, by index.\<close>

definition centre :: "nat \<Rightarrow> bool" where
  "centre i = (3 \<le> i mod 10 \<and> i mod 10 \<le> 6 \<and> 3 \<le> i div 10 \<and> i div 10 \<le> 6)"

text \<open>A 5 by 5 image of opaque black pixels: nothing passes the near-background test
  against white.\<close>

definition solidBlack :: image where
  "solidBlack = \<lparr>width = 5, height = 5, pixels = replicate 25 (Pixel 0 0 0 255)\<rparr>"

text \<open>A 3 by 3 image: opaque white around one black pixel of alpha 100, which is above the
  alpha cutoff 10 of the segmentation and below the minimum alpha 200 of the scoring.\<close>

definition faintDot :: image where
  "faintDot =
     \<lparr>width = 3, height = 3,
      pixels = grid 3 3 (\<lambda>x y. if x = 1 \<and> y = 1 then Pixel 0 0 0 100 else Pixel 255 255 255 255)\<rparr>"

text \<open>A 5 by 5 image: opaque white along the border and in the centre, a ring of opaque
  black between them.\<close>

definition enclosedDot :: image where
  "enclosedDot =
     \<lparr>width = 5, height = 5,
      pixels = grid 5 5 (\<lambda>x y. if (x = 1 \<or> x = 3) \<and> 1 \<le> y \<and> y \<le> 3
                                   \<or> (y = 1 \<or> y = 3) \<and> 1 \<le> x \<and> x \<le> 3
                                then Pixel 0 0 0 255 else Pixel 255 255 255 255)\<rparr>"

subsection \<open>Border-connected pixels\<close>

text \<open>The pixels that the fill is meant to find: a pixel of the grid is reached when a path of
  pixels that pass the near-background test, each next to the one before in its row or its
  column, leads to it from a pixel of the border.\<close>

definition onBorder :: "nat \<Rightarrow> nat \<Rightarrow> nat \<Rightarrow> nat \<Rightarrow> bool" where
  "onBorder W H x y = (x = 0 \<or> y = 0 \<or> x + 1 = W \<or> y + 1 = H)"

definition adj4 :: "nat \<Rightarrow> nat \<Rightarrow> nat \<Rightarrow> nat \<Rightarrow> bool" where
  "adj4 x y x' y' = ((y' = y \<and> (x' = x + 1 \<or> x' + 1 = x)) \<or> (x' = x \<and> (y' = y + 1 \<or> y' + 1 = y)))"

inductive reach :: "nat \<Rightarrow> nat \<Rightarrow> (nat \<Rightarrow> bool) \<Rightarrow> nat \<Rightarrow> nat \<Rightarrow> bool"
  for W H :: nat and near :: "nat \<Rightarrow> bool" where
  seed: "x < W \<Longrightarrow> y < H \<Longrightarrow> onBorder W H x y \<Longrightarrow> near (y * W + x) \<Longrightarrow> reach W H near x y"
| step: "reach W H near x y \<Longrightarrow> adj4 x y x' y' \<Longrightarrow> x' < W \<Longrightarrow> y' < H \<Longrightarrow> near (y' * W + x')
         \<Longrightarrow> reach W H near x' y'"

subsection \<open>Notions used in the proofs\<close>

text \<open>The same notions on indices, the number of cells still unmarked, and the invariant of
  a fill in progress: every marked cell is reached; the cells of the worklist \<open>Q\<close> are marked;
  and every marked cell outside \<open>Q\<close> and outside \<open>P\<close> (the cell whose neighbours are being
  tried) has all its neighbours that pass the test marked. \<open>ipol\<close> is the exact value of the
  interpolation at a fractional index, which \<open>percentile\<close> computes rounded.\<close>

definition reachI :: "nat \<Rightarrow> nat \<Rightarrow> (nat \<Rightarrow> bool) \<Rightarrow> nat \<Rightarrow> bool" where
  "reachI W H near i = reach W H near (i mod W) (i div W)"

definition adjI :: "nat \<Rightarrow> nat \<Rightarrow> nat \<Rightarrow> bool" where
  "adjI W i j = adj4 (i mod W) (i div W) (j mod W) (j div W)"

definition unmarked :: "bool list \<Rightarrow> nat" where
  "unmarked bg = length (filter (\<lambda>v. \<not> v) bg)"

definition fill_inv :: "nat \<Rightarrow> nat \<Rightarrow> (nat \<Rightarrow> bool) \<Rightarrow> nat set \<Rightarrow> bool list \<Rightarrow> nat set \<Rightarrow> bool" where
  "fill_inv W H near P bg Q =
     (length bg = W * H
      \<and> (\<forall>i<W * H. bg ! i \<longrightarrow> reachI W H near i)
      \<and> (\<forall>i\<in>Q. i < W * H \<and> bg ! i)
      \<and> (\<forall>i<W * H. bg ! i \<longrightarrow> i \<in> Q \<or> i \<in> P \<or> (\<forall>j<W * H. adjI W i j \<longrightarrow> near j \<longrightarrow> bg ! j)))"

definition qidx :: "nat \<Rightarrow> int \<times> int \<Rightarrow> nat" where
  "qidx W xy = nat (snd xy * int W + fst xy)"

definition inGridI :: "nat \<Rightarrow> nat \<Rightarrow> int \<Rightarrow> int \<Rightarrow> bool" where
  "inGridI W H x y = (0 \<le> x \<and> x < int W \<and> 0 \<le> y \<and> y < int H)"

definition lifo_inv :: "nat \<Rightarrow> nat \<Rightarrow> (nat \<Rightarrow> bool) \<Rightarrow> nat set \<Rightarrow> fill \<Rightarrow> bool" where
  "lifo_inv W H near P st =
     (fill_inv W H near P (fst st) (qidx W ` set (snd st))
      \<and> (\<forall>xy\<in>set (snd st). inGridI W H (fst xy) (snd xy)))"

definition fill_measure :: "fill \<Rightarrow> nat" where
  "fill_measure st = 5 * unmarked (fst st) + length (snd st)"

definition grows :: "nat \<Rightarrow> nat \<Rightarrow> bool list \<Rightarrow> bool list \<Rightarrow> bool" where
  "grows W H bg bg' = (\<forall>i<W * H. bg ! i \<longrightarrow> bg' ! i)"

definition fifo_inv :: "nat \<Rightarrow> nat \<Rightarrow> (nat \<Rightarrow> bool) \<Rightarrow> nat set \<Rightarrow> nat \<Rightarrow> wfill \<Rightarrow> bool" where
  "fifo_inv W H near P h st =
     (fill_inv W H near P (fst st) (set (drop h (snd st))) \<and> h \<le> length (snd st))"

definition wfill_measure :: "nat \<Rightarrow> wfill \<Rightarrow> nat" where
  "wfill_measure h st = 5 * unmarked (fst st) + (length (snd st) - h)"

definition ipol :: "real list \<Rightarrow> real \<Rightarrow> real" where
  "ipol xs t = (if \<lfloor>t\<rfloor> = \<lceil>t\<rceil> then xs ! nat \<lfloor>t\<rfloor>
           else xs ! nat \<lfloor>t\<rfloor> * (1 - (t - real_of_int \<lfloor>t\<rfloor>)) + xs ! nat \<lceil>t\<rceil> * (t - real_of_int \<lfloor>t\<rfloor>))"

text \<open>The ratio of pixel \<open>i\<close> in the batch script, and what the scan of \<^verbatim>\<open>collectRatios\<close> keeps
  true of the worst pixel after the first \<open>k\<close> pixels: \<open>j\<close> is a pixel of the mask with the
  least ratio among them, and the first such pixel in the row-major order of the indices.\<close>

definition ratioAt :: "image \<Rightarrow> rgb \<Rightarrow> nat \<Rightarrow> real" where
  "ratioAt img bgc i =
     (case pixels img ! i of Pixel r g b a \<Rightarrow>
        contrastRatioPixelVsBg (unat r) (unat g) (unat b) (unat a) bgc)"

definition first_least :: "image \<Rightarrow> bool list \<Rightarrow> rgb \<Rightarrow> nat \<Rightarrow> nat \<Rightarrow> bool" where
  "first_least img msk bgc k j =
     (j < k \<and> mget msk j
      \<and> (\<forall>i<k. mget msk i \<longrightarrow> ratioAt img bgc j \<le> ratioAt img bgc i
                               \<and> (ratioAt img bgc i = ratioAt img bgc j \<longrightarrow> j \<le> i)))"

definition scan_inv :: "image \<Rightarrow> bool list \<Rightarrow> rgb \<Rightarrow> nat \<Rightarrow> scan \<Rightarrow> bool" where
  "scan_inv img msk bgc k acc =
     (case acc of (ratios, worst, wp) \<Rightarrow>
        (worst = None \<and> wp = None \<and> (\<forall>i<k. \<not> mget msk i))
        \<or> (\<exists>j. first_least img msk bgc k j \<and> worst = Some (ratioAt img bgc j)
                \<and> wp = Some (pixels img ! j, j mod width img, j div width img)))"

text \<open>What \<^verbatim>\<open>analyzeOne\<close> and \<^verbatim>\<open>analyze\<close> compute once the border-seeded fill has returned the
  mask \<open>bg\<close>: the rest of each function, with the mask as an argument.\<close>

definition batch_result :: "image \<Rightarrow> opts \<Rightarrow> bool list \<Rightarrow> result" where
  "batch_result img opt bg =
     (let fg = fgMask (width img) (height img) bg;
          band = bandMask (width img) (height img) bg fg (o_bandRadius opt);
          perBg = fold (\<lambda>b m. m(fst b \<mapsto> collectRatios img opt band (snd b)))
                    (o_backgrounds opt) Map.empty;
          passes = map (\<lambda>b. c_pass (the (perBg (fst b)))) (o_backgrounds opt);
          overall = (if o_requireBoth opt then list_all (\<lambda>v. v) passes
                     else list_ex (\<lambda>v. v) passes);
          byBackground = fold (\<lambda>b m. m(fst b \<mapsto> c_pass (the (perBg (fst b)))))
                           (o_backgrounds opt) Map.empty
      in \<lparr>r_size = (width img, height img),
          r_segmentation = \<lparr>fgPixels = mcount fg, bandPixels = mcount band\<rparr>,
          r_backgrounds = perBg, r_overall = overall, r_byBackground = byBackground\<rparr>)"

definition web_result :: "image \<Rightarrow> opts \<Rightarrow> bool list \<Rightarrow> wresult" where
  "web_result img opt bg =
     (let tot = width img * height img;
          bgCount = length (filter (\<lambda>i. mget bg i) [0..<tot]);
          bc = (if bgCount = 0 then markAll (nearAt opt (pixels img)) tot (bg, bgCount)
                else (bg, bgCount));
          band = band_web img opt bc
      in score_web img opt (sampleMask_web img opt (fst bc) band))"

text \<open>The options that each call site reads.\<close>

definition batch_reads ::
  "opts \<Rightarrow> int \<times> int \<times> real \<times> real \<times> real \<times> bool \<times> (string \<times> rgb) list \<times> rgb \<times> int" where
  "batch_reads opt =
     (o_nearBgDist opt, o_bandRadius opt, o_threshold opt, o_maxPctBelow opt, o_p opt,
      o_requireBoth opt, o_backgrounds opt, o_segBg opt, o_alphaBg opt)"

definition web_reads ::
  "opts \<Rightarrow> int \<times> int \<times> real \<times> real \<times> real \<times> rgb \<times> int \<times> rgb \<times> int \<times> string \<times> real" where
  "web_reads opt =
     (o_nearBgDist opt, o_bandRadius opt, o_threshold opt, o_maxPctBelow opt, o_p opt,
      o_segBg opt, o_alphaBg opt, o_bg opt, o_minAlpha opt, o_sampleMode opt,
      o_strokeLumaMax opt)"

section \<open>Properties\<close>

subsection \<open>Statistics and the pass rule\<close>

lemma percentile_Null_iff: "percentile xs p = JNull \<longleftrightarrow> xs = []"
  by (auto simp: percentile_def Let_def split: option.splits)

lemma length_filter_sort: "length (filter P (sort xs)) = length (filter P xs)"
  by (simp add: filter_sort)

lemma sort_Nil_iff: "sort xs = [] \<longleftrightarrow> xs = []"
  by (metis length_sort length_0_conv)

text \<open>
  Claim C1. For the ratios collected for one background, the verdict is true exactly when
  there is at least one ratio, the percentile at \<open>p\<close> of the sorted ratios is a number that is
  at least the threshold, and the percentage of ratios strictly below the threshold is at
  most \<open>maxPctBelow\<close>. This holds for \<open>passByStats\<close> on \<open>statsForRatios\<close> (batch script) and for
  the verdict at the end of \<^verbatim>\<open>analyze\<close> (browser page); for no ratios the verdict is false.
\<close>

theorem pass_rule:
  "(passByStats (statsForRatios ratios p thr) thr maxp =
     (0 < length ratios
      \<and> (\<exists>v. percentile (sort ratios) p = JNum v \<and> thr \<le> v)
      \<and> 100 * real (length (filter (\<lambda>x. x < thr) ratios)) / real (length ratios) \<le> maxp))
   \<and> (pass_web (stats_web ratios p thr n) thr maxp =
     (0 < length ratios
      \<and> (\<exists>v. percentile (sort ratios) p = JNum v \<and> thr \<le> v)
      \<and> 100 * real (length (filter (\<lambda>x. x < thr) ratios)) / real (length ratios) \<le> maxp))
   \<and> passByStats (statsForRatios [] p thr) thr maxp = False
   \<and> pass_web (stats_web [] p thr n) thr maxp = False"
proof (intro conjI)
  show "passByStats (statsForRatios ratios p thr) thr maxp =
     (0 < length ratios
      \<and> (\<exists>v. percentile (sort ratios) p = JNum v \<and> thr \<le> v)
      \<and> 100 * real (length (filter (\<lambda>x. x < thr) ratios)) / real (length ratios) \<le> maxp)"
    by (cases "percentile (sort ratios) p")
      (auto simp: passByStats_def statsForRatios_def Let_def percentile_Null_iff sort_Nil_iff)
  show "pass_web (stats_web ratios p thr n) thr maxp =
     (0 < length ratios
      \<and> (\<exists>v. percentile (sort ratios) p = JNum v \<and> thr \<le> v)
      \<and> 100 * real (length (filter (\<lambda>x. x < thr) ratios)) / real (length ratios) \<le> maxp)"
    by (cases "percentile (sort ratios) p")
      (auto simp: pass_web_def stats_web_def Let_def percentile_Null_iff sort_Nil_iff
        length_filter_sort)
  show "passByStats (statsForRatios [] p thr) thr maxp = False"
    by (simp add: passByStats_def statsForRatios_def)
  show "pass_web (stats_web [] p thr n) thr maxp = False"
    by (simp add: pass_web_def stats_web_def)
qed

subsection \<open>Rounding to a double\<close>

text \<open>The rounding keeps integers, is off by at most half a unit, and keeps the order.\<close>

lemma round_even_int: "round_even (real_of_int k) = k"
  by (simp add: round_even_def)

lemma round_even_err: "\<bar>real_of_int (round_even y) - y\<bar> \<le> 1 / 2"
  unfolding round_even_def Let_def by (auto; linarith)

lemma round_even_lower: "real_of_int k \<le> y \<Longrightarrow> k \<le> round_even y"
  unfolding round_even_def Let_def by (auto simp: le_floor_iff; linarith)

lemma round_even_upper: "y \<le> real_of_int k \<Longrightarrow> round_even y \<le> k"
proof -
  assume a: "y \<le> real_of_int k"
  show ?thesis
  proof (cases "y = real_of_int k")
    case True
    then show ?thesis by (simp add: round_even_int)
  next
    case False
    then have "y < real_of_int k" using a by simp
    then have "\<lfloor>y\<rfloor> < k" by (simp add: floor_less_iff)
    then show ?thesis unfolding round_even_def Let_def by auto
  qed
qed

lemma round_even_mono: "x \<le> y \<Longrightarrow> round_even x \<le> round_even y"
proof -
  assume le: "x \<le> y"
  have fle: "\<lfloor>x\<rfloor> \<le> \<lfloor>y\<rfloor>" using le by (rule floor_mono)
  show ?thesis
  proof (cases "\<lfloor>x\<rfloor> = \<lfloor>y\<rfloor>")
    case True
    then show ?thesis using le unfolding round_even_def Let_def by auto
  next
    case False
    then have "\<lfloor>x\<rfloor> + 1 \<le> \<lfloor>y\<rfloor>" using fle by simp
    moreover have "round_even x \<le> \<lfloor>x\<rfloor> + 1" unfolding round_even_def Let_def by auto
    moreover have "\<lfloor>y\<rfloor> \<le> round_even y" unfolding round_even_def Let_def by auto
    ultimately show ?thesis by linarith
  qed
qed

lemma round_even_near:
  assumes "real_of_int k - 1 / 2 < y" "y < real_of_int k + 1 / 2"
  shows "round_even y = k"
proof -
  have "\<lfloor>y\<rfloor> = k \<or> \<lfloor>y\<rfloor> = k - 1" using assms by linarith
  then show ?thesis using assms unfolding round_even_def Let_def by (auto; linarith)
qed

lemma round_even_tie:
  assumes "y = real_of_int k + 1 / 2" "even k"
  shows "round_even y = k"
proof -
  have "\<lfloor>y\<rfloor> = k" using assms by linarith
  then show ?thesis using assms unfolding round_even_def Let_def by auto
qed

text \<open>The exponent of a positive number, and \<open>fl\<close> in the normal range.\<close>

lemma expo_bounds:
  "0 < x \<Longrightarrow> 2 powi expo x \<le> x \<and> x < 2 powi (expo x + 1)"
proof (induction x rule: expo.induct)
  case (1 x)
  show ?case
  proof (cases "x < 1")
    case True
    have e: "expo x = expo (2 * x) - 1" using True 1(3) by (subst expo.simps) simp
    have ih: "2 powi expo (2 * x) \<le> 2 * x \<and> 2 * x < 2 powi (expo (2 * x) + 1)"
      using 1(1) True 1(3) by simp
    have p1: "(2::real) powi (expo (2 * x) - 1) = 2 powi expo (2 * x) / 2"
      using power_int_diff[of "2::real" "expo (2 * x)" 1] by simp
    have p2: "(2::real) powi (expo (2 * x) + 1) = 2 powi expo (2 * x) * 2"
      using power_int_add[of "2::real" "expo (2 * x)" 1] by simp
    show ?thesis unfolding e using ih p1 p2 by simp
  next
    case False
    show ?thesis
    proof (cases "2 \<le> x")
      case True
      have e: "expo x = expo (x / 2) + 1" using True False 1(3) by (subst expo.simps) simp
      have ih: "2 powi expo (x / 2) \<le> x / 2 \<and> x / 2 < 2 powi (expo (x / 2) + 1)"
        using 1(2) True False 1(3) by simp
      have p1: "(2::real) powi (expo (x / 2) + 1) = 2 powi expo (x / 2) * 2"
        using power_int_add[of "2::real" "expo (x / 2)" 1] by simp
      have p2: "(2::real) powi (expo (x / 2) + 1 + 1) = 2 powi (expo (x / 2) + 1) * 2"
        using power_int_add[of "2::real" "expo (x / 2) + 1" 1] by simp
      show ?thesis unfolding e using ih p1 p2 by simp
    next
      case F2: False
      have e: "expo x = 0" using F2 False 1(3) by (subst expo.simps) simp
      show ?thesis unfolding e using F2 False by simp
    qed
  qed
qed

lemma expo_unique:
  assumes "0 < x" "2 powi e \<le> x" "x < 2 powi (e + 1)"
  shows "expo x = e"
proof (rule ccontr)
  assume ne: "expo x \<noteq> e"
  note b = expo_bounds[OF assms(1)]
  show False
  proof (cases "expo x < e")
    case True
    then have "(2::real) powi (expo x + 1) \<le> 2 powi e" by (intro power_int_increasing) simp_all
    then show False using b assms(2) by linarith
  next
    case False
    then have "e + 1 \<le> expo x" using ne by simp
    then have "(2::real) powi (e + 1) \<le> 2 powi expo x" by (intro power_int_increasing) simp_all
    then show False using b assms(3) by linarith
  qed
qed

lemma expo_mono: "0 < x \<Longrightarrow> x \<le> y \<Longrightarrow> expo x \<le> expo y"
proof (rule ccontr)
  assume a: "0 < x" "x \<le> y" "\<not> expo x \<le> expo y"
  then have "expo y + 1 \<le> expo x" by simp
  then have "(2::real) powi (expo y + 1) \<le> 2 powi expo x" by (intro power_int_increasing) simp_all
  moreover have "0 < y" using a by simp
  ultimately show False using expo_bounds[OF a(1)] expo_bounds[of y] a(2) by linarith
qed

lemma fl_0: "fl 0 = 0" by (simp add: fl_def)

lemma fl_normal:
  assumes "0 < x" "2 powi e \<le> x" "x < 2 powi (e + 1)" "- 1022 \<le> e"
  shows "fl x = real_of_int (round_even (x / 2 powi (e - 52))) * 2 powi (e - 52)"
  using assms expo_unique[OF assms(1,2,3)] by (simp add: fl_def Let_def max_def)

text \<open>The error of one operation: a relative \<open>2\<^sup>-\<^sup>5\<^sup>3\<close> in the normal range, half the fixed
  spacing below it.\<close>

lemma fl_err: "\<bar>fl x - x\<bar> \<le> \<bar>x\<bar> / 2 ^ 53 + 2 powi (- 1075)"
proof (cases "x = 0")
  case True
  then show ?thesis by (simp add: fl_def)
next
  case False
  define e where "e = expo \<bar>x\<bar>"
  define E where "E = max e (- 1022)"
  define u :: real where "u = 2 powi (E - 52)"
  have ax: "0 < \<bar>x\<bar>" using False by simp
  have u0: "0 < u" by (simp add: u_def)
  have f: "fl x = real_of_int (round_even (x / u)) * u"
    using False by (simp add: fl_def Let_def e_def E_def u_def)
  have "fl x - x = (real_of_int (round_even (x / u)) - x / u) * u"
    using u0 by (simp add: f algebra_simps)
  then have "\<bar>fl x - x\<bar> = \<bar>real_of_int (round_even (x / u)) - x / u\<bar> * u"
    using u0 by (simp add: abs_mult)
  also have "\<dots> \<le> (1 / 2) * u"
    using round_even_err[of "x / u"] u0 by (intro mult_right_mono) simp_all
  finally have h: "\<bar>fl x - x\<bar> \<le> u / 2" by simp
  have u2: "u / 2 = 2 powi (E - 53)"
    using power_int_diff[of "2::real" "E - 52" 1] by (simp add: u_def)
  show ?thesis
  proof (cases "- 1022 \<le> e")
    case True
    then have EE: "E = e" by (simp add: E_def)
    have "2 powi (e - 53) = 2 powi e / (2::real) ^ 53"
      using power_int_diff[of "2::real" e 53] by simp
    also have "\<dots> \<le> \<bar>x\<bar> / 2 ^ 53"
      using expo_bounds[OF ax] by (simp add: e_def divide_right_mono)
    finally have "u / 2 \<le> \<bar>x\<bar> / 2 ^ 53" by (simp add: u2 EE)
    moreover have "0 \<le> (2::real) powi (- 1075)" by simp
    ultimately show ?thesis using h by linarith
  next
    case False
    then have EE: "E = - 1022" by (simp add: E_def)
    have "u / 2 = 2 powi (- 1075)" by (simp add: u2 EE)
    moreover have "0 \<le> \<bar>x\<bar> / 2 ^ 53" by simp
    ultimately show ?thesis using h by linarith
  qed
qed

lemma fl_err2: "\<bar>fl x - x\<bar> \<le> \<bar>x\<bar> / 2 ^ 53 + 1 / 2 ^ 60"
proof -
  have "(2::real) powi (- 1075) \<le> 2 powi (- 60)" by (intro power_int_increasing) simp_all
  also have "\<dots> = 1 / 2 ^ 60" by (simp add: power_int_minus_divide)
  finally show ?thesis using fl_err[of x] by linarith
qed

lemma fl_nonneg: "0 \<le> x \<Longrightarrow> 0 \<le> fl x"
proof -
  assume "0 \<le> x"
  then have "\<And>u::real. 0 < u \<Longrightarrow> 0 \<le> round_even (x / u)"
    by (intro round_even_lower) simp
  then show ?thesis by (simp add: fl_def Let_def)
qed

lemma fl_mono:
  assumes "0 \<le> x" "x \<le> y"
  shows "fl x \<le> fl y"
proof (cases "x = 0")
  case True
  then show ?thesis using fl_nonneg[of y] assms by (simp add: fl_0)
next
  case False
  then have x0: "0 < x" and y0: "0 < y" using assms by simp_all
  define ex where "ex = max (expo x) (- 1022)"
  define ey where "ey = max (expo y) (- 1022)"
  have fx: "fl x = real_of_int (round_even (x / 2 powi (ex - 52))) * 2 powi (ex - 52)"
    using x0 by (simp add: fl_def Let_def ex_def)
  have fy: "fl y = real_of_int (round_even (y / 2 powi (ey - 52))) * 2 powi (ey - 52)"
    using y0 by (simp add: fl_def Let_def ey_def)
  have "expo x \<le> expo y" using x0 assms(2) by (rule expo_mono)
  then have le: "ex \<le> ey" unfolding ex_def ey_def by (intro max.mono) simp_all
  show ?thesis
  proof (cases "ex = ey")
    case True
    have "x / 2 powi (ey - 52) \<le> y / 2 powi (ey - 52)"
      using assms(2) by (simp add: divide_right_mono)
    then have "round_even (x / 2 powi (ey - 52)) \<le> round_even (y / 2 powi (ey - 52))"
      by (rule round_even_mono)
    then show ?thesis unfolding fx fy True by (intro mult_right_mono) simp_all
  next
    case False
    then have lt: "ex + 1 \<le> ey" using le by simp
    then have eyn: "ey = expo y" unfolding ex_def ey_def by linarith
    have xb: "x < 2 powi (ex + 1)"
    proof -
      have "(2::real) powi (expo x + 1) \<le> 2 powi (ex + 1)"
        unfolding ex_def by (intro power_int_increasing) simp_all
      then show ?thesis using expo_bounds[OF x0] by linarith
    qed
    have yb: "2 powi ey \<le> y" using expo_bounds[OF y0] eyn by simp
    have "x / 2 powi (ex - 52) \<le> 2 powi (ex + 1) / 2 powi (ex - 52)"
      using xb by (simp add: divide_right_mono)
    also have "\<dots> = (2::real) powi 53"
      using power_int_diff[of "2::real" "ex + 1" "ex - 52"] by simp
    finally have "x / 2 powi (ex - 52) \<le> real_of_int (2 ^ 53)" by simp
    then have "round_even (x / 2 powi (ex - 52)) \<le> 2 ^ 53" by (rule round_even_upper)
    then have "real_of_int (round_even (x / 2 powi (ex - 52))) \<le> 2 ^ 53"
      by (metis of_int_le_iff of_int_numeral of_int_power)
    then have "fl x \<le> 2 ^ 53 * 2 powi (ex - 52)"
      unfolding fx by (intro mult_right_mono) simp_all
    also have "\<dots> = 2 powi (ex + 1)"
      using power_int_add[of "2::real" 53 "ex - 52"] by (simp add: add.commute)
    also have "\<dots> \<le> 2 powi ey" using lt by (intro power_int_increasing) simp_all
    finally have a: "fl x \<le> 2 powi ey" .
    have "2 powi ey / 2 powi (ey - 52) \<le> y / 2 powi (ey - 52)"
      using yb by (simp add: divide_right_mono)
    moreover have "2 powi ey / 2 powi (ey - 52) = (2::real) powi 52"
      using power_int_diff[of "2::real" ey "ey - 52"] by simp
    ultimately have "real_of_int (2 ^ 52) \<le> y / 2 powi (ey - 52)" by simp
    then have "2 ^ 52 \<le> round_even (y / 2 powi (ey - 52))" by (rule round_even_lower)
    then have "(2::real) ^ 52 \<le> real_of_int (round_even (y / 2 powi (ey - 52)))"
      by (metis of_int_le_iff of_int_numeral of_int_power)
    then have "2 ^ 52 * 2 powi (ey - 52) \<le> fl y"
      unfolding fy by (intro mult_right_mono) simp_all
    moreover have "2 ^ 52 * 2 powi (ey - 52) = (2::real) powi ey"
      using power_int_add[of "2::real" 52 "ey - 52"] by (simp add: add.commute)
    ultimately have b: "2 powi ey \<le> fl y" by simp
    show ?thesis using a b by linarith
  qed
qed

lemma fl_exact:
  assumes "0 < x" "2 powi e \<le> x" "x < 2 powi (e + 1)" "- 1022 \<le> e"
    and "x / 2 powi (e - 52) = real_of_int k"
  shows "fl x = x"
proof -
  have "fl x = real_of_int k * 2 powi (e - 52)"
    unfolding fl_normal[OF assms(1-4)] assms(5) round_even_int ..
  also have "\<dots> = x" unfolding assms(5)[symmetric] by simp
  finally show ?thesis .
qed

lemma fl_nat:
  assumes "n < 2 ^ 53"
  shows "fl (real n) = real n"
proof (cases "n = 0")
  case True
  then show ?thesis by (simp add: fl_0)
next
  case False
  then have n0: "0 < real n" by simp
  define e where "e = expo (real n)"
  note b = expo_bounds[OF n0, folded e_def]
  have e0: "0 \<le> e"
  proof (rule ccontr)
    assume "\<not> 0 \<le> e"
    then have "(2::real) powi (e + 1) \<le> 2 powi 0" by (intro power_int_increasing) simp_all
    then show False using b False by simp
  qed
  have e52: "e \<le> 52"
  proof (rule ccontr)
    assume "\<not> e \<le> 52"
    then have "(2::real) powi 53 \<le> 2 powi e" by (intro power_int_increasing) simp_all
    moreover have "real n < 2 ^ 53" using assms by (metis of_nat_less_iff of_nat_numeral of_nat_power)
    ultimately show False using b by simp
  qed
  have "(2::real) powi (e - 52) = inverse (2 powi (52 - e))"
    using power_int_minus[of "2::real" "52 - e"] by simp
  also have "(2::real) powi (52 - e) = 2 ^ nat (52 - e)"
    using e52 by (simp add: power_int_def)
  finally have u: "(2::real) powi (e - 52) = inverse (2 ^ nat (52 - e))" .
  have k: "real n / 2 powi (e - 52) = real_of_int (int n * 2 ^ nat (52 - e))"
    unfolding u by (simp add: divide_inverse)
  show ?thesis
  proof (rule fl_exact[OF n0, of e])
    show "2 powi e \<le> real n" using b by simp
    show "real n < 2 powi (e + 1)" using b by simp
    show "- 1022 \<le> e" using e0 by simp
    show "real n / 2 powi (e - 52) = real_of_int (int n * 2 ^ nat (52 - e))" by (rule k)
  qed
qed

lemma fl_1: "fl 1 = 1" using fl_nat[of 1] by simp

text \<open>Evaluating \<open>fl\<close> at a given number from its exponent and the nearest multiple of the
  spacing.\<close>

lemma fl_eval:
  assumes "0 < x" "2 powi e \<le> x" "x < 2 powi (e + 1)" "- 1022 \<le> e"
    and "real_of_int k - 1 / 2 < x / 2 powi (e - 52)" "x / 2 powi (e - 52) < real_of_int k + 1 / 2"
  shows "fl x = real_of_int k * 2 powi (e - 52)"
  unfolding fl_normal[OF assms(1-4)] round_even_near[OF assms(5,6)] ..

lemma fl_eval_tie:
  assumes "0 < x" "2 powi e \<le> x" "x < 2 powi (e + 1)" "- 1022 \<le> e"
    and "x / 2 powi (e - 52) = real_of_int k + 1 / 2" "even k"
  shows "fl x = real_of_int k * 2 powi (e - 52)"
  unfolding fl_normal[OF assms(1-4)] round_even_tie[OF assms(5,6)] ..

subsection \<open>Percentiles\<close>

lemma js_at_Some: "0 \<le> i \<Longrightarrow> i < int (length xs) \<Longrightarrow> js_at xs i = Some (xs ! nat i)"
  by (simp add: js_at_def)

lemma percentile_interp:
  assumes "xs \<noteq> []" and "fl (real (length xs - 1) * p) = t" and "\<lfloor>t\<rfloor> = lo" and "\<lceil>t\<rceil> = hi"
    and "lo \<noteq> hi" and "0 \<le> lo" and "hi < int (length xs)" and "fl (t - real_of_int lo) = w"
  shows "percentile xs p = JNum (fl (fl (xs ! nat lo * fl (1 - w)) + fl (xs ! nat hi * w)))"
proof -
  have "lo \<le> hi" using assms(3,4) floor_le_ceiling[of t] by simp
  then have a: "js_at xs lo = Some (xs ! nat lo)" "js_at xs hi = Some (xs ! nat hi)"
    using assms(6,7) by (simp_all add: js_at_def)
  show ?thesis
    unfolding percentile_def Let_def assms(2) assms(3) assms(4) assms(8) a
    using assms(1,5) by simp
qed

lemma percentile_at_int:
  assumes "xs \<noteq> []" and "fl (real (length xs - 1) * p) = real_of_int k"
    and "0 \<le> k" and "k < int (length xs)"
  shows "percentile xs p = JNum (xs ! nat k)"
  unfolding percentile_def Let_def assms(2) using assms(1,3,4) by (simp add: js_at_def)

lemma idx_range:
  assumes "xs \<noteq> []" "length xs \<le> 2 ^ 53" "0 \<le> p" "p \<le> 1"
  shows "0 \<le> fl (real (length xs - 1) * p) \<and> fl (real (length xs - 1) * p) \<le> real (length xs - 1)"
proof -
  have m: "length xs - 1 < 2 ^ 53" using assms(1,2) by (cases xs) simp_all
  have "0 \<le> real (length xs - 1) * p" using assms(3) by simp
  then have a: "0 \<le> fl (real (length xs - 1) * p)" by (rule fl_nonneg)
  have "real (length xs - 1) * p \<le> real (length xs - 1)" using assms(4) by (simp add: mult_left_le)
  then have "fl (real (length xs - 1) * p) \<le> fl (real (length xs - 1))"
    using assms(3) by (intro fl_mono) simp_all
  then show ?thesis using a fl_nat[OF m] by simp
qed

lemma ipol_bounds:
  assumes s: "sorted xs" and t0: "0 \<le> t" and t1: "t \<le> real (length xs - 1)" and ne: "xs \<noteq> []"
  shows "xs ! nat \<lfloor>t\<rfloor> \<le> ipol xs t \<and> ipol xs t \<le> xs ! nat \<lceil>t\<rceil>"
proof -
  have lo0: "0 \<le> \<lfloor>t\<rfloor>" using t0 by simp
  have hi1: "\<lceil>t\<rceil> \<le> int (length xs - 1)" using t1 by (simp add: ceiling_le_iff)
  have lohi: "\<lfloor>t\<rfloor> \<le> \<lceil>t\<rceil>" by (rule floor_le_ceiling)
  have len: "int (length xs - 1) < int (length xs)" using ne by (cases xs) auto
  have le: "xs ! nat \<lfloor>t\<rfloor> \<le> xs ! nat \<lceil>t\<rceil>"
    using s lo0 hi1 lohi len by (intro sorted_nth_mono) linarith+
  have w0: "0 \<le> t - real_of_int \<lfloor>t\<rfloor>" by linarith
  have w1: "t - real_of_int \<lfloor>t\<rfloor> \<le> 1" by linarith
  define w where "w = t - real_of_int \<lfloor>t\<rfloor>"
  define a where "a = xs ! nat \<lfloor>t\<rfloor>"
  define b where "b = xs ! nat \<lceil>t\<rceil>"
  have "a \<le> a * (1 - w) + b * w"
  proof -
    have "a * (1 - w) + b * w = a + w * (b - a)" by (simp add: algebra_simps)
    moreover have "0 \<le> w * (b - a)" using w0 le by (simp add: w_def a_def b_def)
    ultimately show ?thesis by linarith
  qed
  moreover have "a * (1 - w) + b * w \<le> b"
  proof -
    have "a * (1 - w) + b * w = b - (1 - w) * (b - a)" by (simp add: algebra_simps)
    moreover have "0 \<le> (1 - w) * (b - a)" using w1 le by (simp add: w_def a_def b_def)
    ultimately show ?thesis by linarith
  qed
  ultimately show ?thesis using le by (auto simp: ipol_def w_def a_def b_def)
qed

lemma ipol_mono:
  assumes s: "sorted xs" and ne: "xs \<noteq> []"
    and t0: "0 \<le> t" and tu: "t \<le> u" and u1: "u \<le> real (length xs - 1)"
  shows "ipol xs t \<le> ipol xs u"
proof (cases "\<lceil>t\<rceil> \<le> \<lfloor>u\<rfloor>")
  case True
  have len: "int (length xs - 1) < int (length xs)" using ne by (cases xs) auto
  have "0 \<le> \<lceil>t\<rceil>" using t0 by (simp add: ceiling_le_iff less_ceiling_iff) 
  moreover have "\<lfloor>u\<rfloor> \<le> int (length xs - 1)" using u1 by (simp add: floor_le_iff)
  ultimately have "xs ! nat \<lceil>t\<rceil> \<le> xs ! nat \<lfloor>u\<rfloor>"
    using s True len by (intro sorted_nth_mono) linarith+
  moreover have "ipol xs t \<le> xs ! nat \<lceil>t\<rceil>"
    using ipol_bounds[OF s t0 _ ne] tu u1 by simp
  moreover have "xs ! nat \<lfloor>u\<rfloor> \<le> ipol xs u"
    using ipol_bounds[OF s _ u1 ne] tu t0 by simp
  ultimately show ?thesis by linarith
next
  case False
  then have lt: "\<lfloor>u\<rfloor> < \<lceil>t\<rceil>" by simp
  have fle: "\<lfloor>t\<rfloor> \<le> \<lfloor>u\<rfloor>" using tu by (rule floor_mono)
  have c1: "\<lceil>t\<rceil> \<le> \<lfloor>t\<rfloor> + 1" by linarith
  have eq: "\<lfloor>u\<rfloor> = \<lfloor>t\<rfloor>" using lt fle c1 by linarith
  have ct: "\<lceil>t\<rceil> = \<lfloor>t\<rfloor> + 1" using lt fle c1 by linarith
  have cu: "\<lceil>u\<rceil> = \<lfloor>t\<rfloor> + 1"
  proof -
    have "\<lceil>t\<rceil> \<le> \<lceil>u\<rceil>" using tu by (rule ceiling_mono)
    moreover have "\<lceil>u\<rceil> \<le> \<lfloor>u\<rfloor> + 1" by linarith
    ultimately show ?thesis using ct eq by linarith
  qed
  have len: "int (length xs - 1) < int (length xs)" using ne by (cases xs) auto
  have lo0: "0 \<le> \<lfloor>t\<rfloor>" using t0 by simp
  have "\<lceil>u\<rceil> \<le> int (length xs - 1)" using u1 by (simp add: ceiling_le_iff)
  then have le: "xs ! nat \<lfloor>t\<rfloor> \<le> xs ! nat (\<lfloor>t\<rfloor> + 1)"
    using s lo0 cu len by (intro sorted_nth_mono) linarith+
  define a where "a = xs ! nat \<lfloor>t\<rfloor>"
  define b where "b = xs ! nat (\<lfloor>t\<rfloor> + 1)"
  define k where "k = real_of_int \<lfloor>t\<rfloor>"
  have it: "ipol xs t = a * (1 - (t - k)) + b * (t - k)"
    using ct by (simp add: ipol_def a_def b_def k_def)
  have iu: "ipol xs u = a * (1 - (u - k)) + b * (u - k)"
    using cu eq by (simp add: ipol_def a_def b_def k_def)
  have "ipol xs u - ipol xs t = (u - t) * (b - a)" unfolding it iu by (simp add: algebra_simps)
  moreover have "0 \<le> (u - t) * (b - a)" using tu le by (simp add: a_def b_def)
  ultimately show ?thesis by linarith
qed

text \<open>Five roundings separate the computed interpolation from the exact one.\<close>

lemma lerp_err:
  fixes u v d w a P Q R M :: real
  assumes u: "0 \<le> u" "u \<le> M" and v: "0 \<le> v" "v \<le> M" and M: "1 \<le> M"
    and d: "0 \<le> d" "d \<le> 1" and w: "0 \<le> w" "w \<le> 1" and a: "0 \<le> a" "a \<le> 1"
    and ew: "\<bar>w - d\<bar> \<le> \<bar>d\<bar> / 2 ^ 53 + 1 / 2 ^ 60"
    and ea: "\<bar>a - (1 - w)\<bar> \<le> \<bar>1 - w\<bar> / 2 ^ 53 + 1 / 2 ^ 60"
    and eP: "\<bar>P - u * a\<bar> \<le> \<bar>u * a\<bar> / 2 ^ 53 + 1 / 2 ^ 60"
    and eQ: "\<bar>Q - v * w\<bar> \<le> \<bar>v * w\<bar> / 2 ^ 53 + 1 / 2 ^ 60"
    and eR: "\<bar>R - (P + Q)\<bar> \<le> \<bar>P + Q\<bar> / 2 ^ 53 + 1 / 2 ^ 60"
  shows "\<bar>R - (u * (1 - d) + v * d)\<bar> \<le> M / 2 ^ 49"
proof -
  define dl :: real where "dl = 1 / 2 ^ 53"
  define et :: real where "et = 1 / 2 ^ 60"
  define X where "X = M * dl + et"
  define Y where "Y = (2 * M + 2 * X) * dl + et"
  define Z where "Z = M * (dl + et)"
  define ua where "ua = u * a"
  define vw where "vw = v * w"
  define t4 where "t4 = u * (a - (1 - w))"
  define t5 where "t5 = u * (w - d)"
  define t6 where "t6 = v * (w - d)"
  have dl0: "0 \<le> dl" and et0: "0 \<le> et" by (simp_all add: dl_def et_def)
  have ew': "\<bar>w - d\<bar> \<le> \<bar>d\<bar> * dl + et" using ew by (simp add: dl_def et_def)
  have ea': "\<bar>a - (1 - w)\<bar> \<le> \<bar>1 - w\<bar> * dl + et" using ea by (simp add: dl_def et_def)
  have eP': "\<bar>P - ua\<bar> \<le> \<bar>ua\<bar> * dl + et" using eP by (simp add: dl_def et_def ua_def)
  have eQ': "\<bar>Q - vw\<bar> \<le> \<bar>vw\<bar> * dl + et" using eQ by (simp add: dl_def et_def vw_def)
  have eR': "\<bar>R - (P + Q)\<bar> \<le> \<bar>P + Q\<bar> * dl + et" using eR by (simp add: dl_def et_def)
  have ua: "0 \<le> ua" "ua \<le> M"
    using u a mult_mono[of u M a 1] by (simp_all add: ua_def)
  have vw: "0 \<le> vw" "vw \<le> M"
    using v w mult_mono[of v M w 1] by (simp_all add: vw_def)
  have "\<bar>ua\<bar> * dl \<le> M * dl" using ua dl0 by (intro mult_right_mono) simp_all
  then have e1: "\<bar>P - ua\<bar> \<le> X" using eP' unfolding X_def by linarith
  have "\<bar>vw\<bar> * dl \<le> M * dl" using vw dl0 by (intro mult_right_mono) simp_all
  then have e2: "\<bar>Q - vw\<bar> \<le> X" using eQ' unfolding X_def by linarith
  have PQ: "\<bar>P + Q\<bar> \<le> 2 * M + 2 * X" using e1 e2 ua vw M by linarith
  have "\<bar>P + Q\<bar> * dl \<le> (2 * M + 2 * X) * dl"
    using PQ dl0 by (intro mult_right_mono) simp_all
  then have e3: "\<bar>R - (P + Q)\<bar> \<le> Y" using eR' unfolding Y_def by linarith
  have "\<bar>d\<bar> * dl \<le> 1 * dl" using d dl0 by (intro mult_right_mono) simp_all
  then have wd: "\<bar>w - d\<bar> \<le> dl + et" using ew' by simp
  have "\<bar>1 - w\<bar> * dl \<le> 1 * dl" using w dl0 by (intro mult_right_mono) simp_all
  then have aw: "\<bar>a - (1 - w)\<bar> \<le> dl + et" using ea' by simp
  have D0: "0 \<le> dl + et" using dl0 et0 by simp
  have e4: "\<bar>t4\<bar> \<le> Z"
    unfolding abs_mult t4_def Z_def using u aw D0 by (intro mult_mono) simp_all
  have e5: "\<bar>t5\<bar> \<le> Z"
    unfolding abs_mult t5_def Z_def using u wd D0 by (intro mult_mono) simp_all
  have e6: "\<bar>t6\<bar> \<le> Z"
    unfolding abs_mult t6_def Z_def using v wd D0 by (intro mult_mono) simp_all
  have id: "R - (u * (1 - d) + v * d) = (R - (P + Q)) + (P - ua) + (Q - vw) + t4 - t5 + t6"
    by (simp add: algebra_simps ua_def vw_def t4_def t5_def t6_def)
  have "\<bar>R - (u * (1 - d) + v * d)\<bar> \<le> Y + 2 * X + 3 * Z"
    unfolding id using e1 e2 e3 e4 e5 e6 by linarith
  also have "\<dots> \<le> M / 2 ^ 49"
    using M unfolding Y_def X_def Z_def dl_def et_def by (simp add: algebra_simps)
  finally show ?thesis .
qed

lemma percentile_near:
  assumes ne: "xs \<noteq> []" and len: "length xs \<le> 2 ^ 53" and p0: "0 \<le> p" and p1: "p \<le> 1"
    and bd: "\<forall>x\<in>set xs. 0 \<le> x \<and> x \<le> M" and M: "1 \<le> M"
  shows "\<exists>c. percentile xs p = JNum c
           \<and> \<bar>c - ipol xs (fl (real (length xs - 1) * p))\<bar> \<le> M / 2 ^ 49"
proof -
  define t where "t = fl (real (length xs - 1) * p)"
  have t0: "0 \<le> t" and t1: "t \<le> real (length xs - 1)"
    using idx_range[OF ne len p0 p1] by (simp_all add: t_def)
  have lo0: "0 \<le> \<lfloor>t\<rfloor>" using t0 by simp
  have hi1: "\<lceil>t\<rceil> \<le> int (length xs - 1)" using t1 by (simp add: ceiling_le_iff)
  have lohi: "\<lfloor>t\<rfloor> \<le> \<lceil>t\<rceil>" by (rule floor_le_ceiling)
  have lenm: "int (length xs - 1) < int (length xs)" using ne by (cases xs) auto
  have M0: "0 \<le> M / 2 ^ 49" using M by simp
  show ?thesis
  proof (cases "\<lfloor>t\<rfloor> = \<lceil>t\<rceil>")
    case True
    have ti: "t = real_of_int \<lfloor>t\<rfloor>" using True by linarith
    have "percentile xs p = JNum (xs ! nat \<lfloor>t\<rfloor>)"
    proof (rule percentile_at_int)
      show "xs \<noteq> []" by (rule ne)
      show "fl (real (length xs - 1) * p) = real_of_int \<lfloor>t\<rfloor>" using ti unfolding t_def .
      show "0 \<le> \<lfloor>t\<rfloor>" by (rule lo0)
      show "\<lfloor>t\<rfloor> < int (length xs)" using hi1 lohi lenm by linarith
    qed
    moreover have "ipol xs t = xs ! nat \<lfloor>t\<rfloor>" using True by (simp add: ipol_def)
    ultimately show ?thesis using M0 unfolding t_def by simp
  next
    case False
    define d where "d = t - real_of_int \<lfloor>t\<rfloor>"
    define w where "w = fl d"
    define a where "a = fl (1 - w)"
    define u where "u = xs ! nat \<lfloor>t\<rfloor>"
    define v where "v = xs ! nat \<lceil>t\<rceil>"
    have pc: "percentile xs p = JNum (fl (fl (u * a) + fl (v * w)))"
      unfolding u_def v_def a_def
    proof (rule percentile_interp[where t = t])
      show "xs \<noteq> []" by (rule ne)
      show "fl (real (length xs - 1) * p) = t" by (simp add: t_def)
      show "\<lfloor>t\<rfloor> = \<lfloor>t\<rfloor>" ..
      show "\<lceil>t\<rceil> = \<lceil>t\<rceil>" ..
      show "\<lfloor>t\<rfloor> \<noteq> \<lceil>t\<rceil>" by (rule False)
      show "0 \<le> \<lfloor>t\<rfloor>" by (rule lo0)
      show "\<lceil>t\<rceil> < int (length xs)" using hi1 lenm by linarith
      show "fl (t - real_of_int \<lfloor>t\<rfloor>) = w" by (simp add: w_def d_def)
    qed
    have il: "nat \<lfloor>t\<rfloor> < length xs" "nat \<lceil>t\<rceil> < length xs"
      using lo0 hi1 lohi lenm by linarith+
    have ub: "0 \<le> u" "u \<le> M" using bd il(1) by (simp_all add: u_def)
    have vb: "0 \<le> v" "v \<le> M" using bd il(2) by (simp_all add: v_def)
    have db: "0 \<le> d" "d \<le> 1" unfolding d_def by linarith+
    have wb: "0 \<le> w" "w \<le> 1"
      using fl_nonneg[OF db(1)] fl_mono[OF db(1) db(2)] by (simp_all add: w_def fl_1)
    have w1: "0 \<le> 1 - w" "1 - w \<le> 1" using wb by simp_all
    have ab: "0 \<le> a" "a \<le> 1"
      using fl_nonneg[OF w1(1)] fl_mono[OF w1(1) w1(2)] by (simp_all add: a_def fl_1)
    have "\<bar>fl (fl (u * a) + fl (v * w)) - (u * (1 - d) + v * d)\<bar> \<le> M / 2 ^ 49"
      using ub vb M db wb ab
    proof (rule lerp_err)
      show "\<bar>w - d\<bar> \<le> \<bar>d\<bar> / 2 ^ 53 + 1 / 2 ^ 60" unfolding w_def by (rule fl_err2)
      show "\<bar>a - (1 - w)\<bar> \<le> \<bar>1 - w\<bar> / 2 ^ 53 + 1 / 2 ^ 60" unfolding a_def by (rule fl_err2)
      show "\<bar>fl (u * a) - u * a\<bar> \<le> \<bar>u * a\<bar> / 2 ^ 53 + 1 / 2 ^ 60" by (rule fl_err2)
      show "\<bar>fl (v * w) - v * w\<bar> \<le> \<bar>v * w\<bar> / 2 ^ 53 + 1 / 2 ^ 60" by (rule fl_err2)
      show "\<bar>fl (fl (u * a) + fl (v * w)) - (fl (u * a) + fl (v * w))\<bar>
              \<le> \<bar>fl (u * a) + fl (v * w)\<bar> / 2 ^ 53 + 1 / 2 ^ 60" by (rule fl_err2)
    qed
    moreover have "ipol xs t = u * (1 - d) + v * d"
      using False by (simp add: ipol_def u_def v_def d_def)
    ultimately show ?thesis using pc unfolding t_def by simp
  qed
qed

lemma sorted_Min_first: "sorted xs \<Longrightarrow> xs \<noteq> [] \<Longrightarrow> Min (set xs) = xs ! 0"
  by (cases xs) (auto intro!: Min_eqI)

lemma sorted_Max_last: "sorted xs \<Longrightarrow> xs \<noteq> [] \<Longrightarrow> Max (set xs) = xs ! (length xs - 1)"
proof -
  assume s: "sorted xs" and ne: "xs \<noteq> []"
  have "\<And>y. y \<in> set xs \<Longrightarrow> y \<le> xs ! (length xs - 1)"
  proof -
    fix y assume "y \<in> set xs"
    then obtain i where i: "i < length xs" "xs ! i = y" by (auto simp: in_set_conv_nth)
    then show "y \<le> xs ! (length xs - 1)" using sorted_nth_mono[OF s, of i "length xs - 1"] by auto
  qed
  moreover have "xs ! (length xs - 1) \<in> set xs" using ne by simp
  ultimately show ?thesis by (intro Max_eqI) simp_all
qed

lemma Max_bounds:
  assumes "xs \<noteq> []" "\<forall>x\<in>set xs. 1 \<le> (x::real)"
  shows "1 \<le> Max (set xs) \<and> (\<forall>x\<in>set xs. 0 \<le> x \<and> x \<le> Max (set xs))"
proof -
  have "hd xs \<in> set xs" using assms(1) by simp
  then have "1 \<le> hd xs" "hd xs \<le> Max (set xs)" using assms(2) by simp_all
  then have "1 \<le> Max (set xs)" by linarith
  moreover have "\<forall>x\<in>set xs. 0 \<le> x \<and> x \<le> Max (set xs)"
  proof
    fix x assume "x \<in> set xs"
    then show "0 \<le> x \<and> x \<le> Max (set xs)" using assms(2) by (auto intro: order_trans[of 0 1])
  qed
  ultimately show ?thesis by simp
qed

text \<open>
  Claim C8, as the code has it. On a non-empty ascending list of ratios (each at least 1; a
  JavaScript array has fewer than \<open>2\<^sup>3\<^sup>2\<close> elements) the percentile is a number for every \<open>p\<close>
  between 0 and 1; it is the least element at \<open>p = 0\<close> and the greatest element at \<open>p = 1\<close>;
  and when \<open>p\<close> grows the percentile does not decrease by more than the rounding of the
  double arithmetic allows, which is less than \<open>2\<^sup>-\<^sup>4\<^sup>8\<close> times the greatest element.
\<close>

theorem percentile_monotone_up_to_rounding:
  assumes "sorted xs" and "xs \<noteq> []" and "length xs \<le> 2 ^ 53" and "\<forall>x\<in>set xs. 1 \<le> x"
    and "0 \<le> p" and "p \<le> q" and "q \<le> 1"
  shows "(\<exists>u v. percentile xs p = JNum u \<and> percentile xs q = JNum v
            \<and> u \<le> v + Max (set xs) / 2 ^ 48)
       \<and> percentile xs 0 = JNum (Min (set xs))
       \<and> percentile xs 1 = JNum (Max (set xs))"
proof -
  let ?m = "real (length xs - 1)"
  define M where "M = Max (set xs)"
  have Mb: "1 \<le> M" "\<forall>x\<in>set xs. 0 \<le> x \<and> x \<le> M"
    using Max_bounds[OF assms(2,4)] by (simp_all add: M_def)
  have p1: "p \<le> 1" and q0: "0 \<le> q" using assms(5,6,7) by simp_all
  obtain u where u: "percentile xs p = JNum u" "\<bar>u - ipol xs (fl (?m * p))\<bar> \<le> M / 2 ^ 49"
    using percentile_near[OF assms(2,3,5) p1 Mb(2,1)] by blast
  obtain v where v: "percentile xs q = JNum v" "\<bar>v - ipol xs (fl (?m * q))\<bar> \<le> M / 2 ^ 49"
    using percentile_near[OF assms(2,3) q0 assms(7) Mb(2,1)] by blast
  have tp: "0 \<le> fl (?m * p)" using idx_range[OF assms(2,3,5) p1] by simp
  have tq: "fl (?m * q) \<le> ?m" using idx_range[OF assms(2,3) q0 assms(7)] by simp
  have "?m * p \<le> ?m * q" using assms(6) by (simp add: mult_left_mono)
  then have "fl (?m * p) \<le> fl (?m * q)" using assms(5) by (intro fl_mono) simp_all
  then have "ipol xs (fl (?m * p)) \<le> ipol xs (fl (?m * q))"
    using assms(1,2) tp tq by (intro ipol_mono)
  then have "u \<le> v + 2 * (M / 2 ^ 49)" using u(2) v(2) by linarith
  then have "u \<le> v + M / 2 ^ 48" by simp
  then have mono: "\<exists>u v. percentile xs p = JNum u \<and> percentile xs q = JNum v
            \<and> u \<le> v + Max (set xs) / 2 ^ 48"
    using u(1) v(1) by (simp add: M_def)
  have m: "length xs - 1 < 2 ^ 53" using assms(2,3) by (cases xs) simp_all
  have lenm: "int (length xs - 1) < int (length xs)" using assms(2) by (cases xs) auto
  have p0: "percentile xs 0 = JNum (xs ! 0)"
    using percentile_at_int[of xs 0 0] assms(2) by (simp add: fl_0)
  have i1: "fl (real (length xs - 1) * 1) = real_of_int (int (length xs - 1))"
    unfolding mult_1_right of_int_of_nat_eq by (rule fl_nat[OF m])
  have "percentile xs 1 = JNum (xs ! nat (int (length xs - 1)))"
  proof (rule percentile_at_int)
    show "xs \<noteq> []" by (rule assms(2))
    show "fl (real (length xs - 1) * 1) = real_of_int (int (length xs - 1))" by (rule i1)
    show "0 \<le> int (length xs - 1)" by simp
    show "int (length xs - 1) < int (length xs)" by (rule lenm)
  qed
  then have p1: "percentile xs 1 = JNum (xs ! (length xs - 1))" by simp
  show ?thesis
    using mono p0 p1 sorted_Min_first[OF assms(1,2)] sorted_Max_last[OF assms(1,2)] by simp
qed

theorem percentile_monotone_up_to_rounding_witness:
  "(\<exists>u v. percentile [1, 2, 4] (1 / 4) = JNum u \<and> percentile [1, 2, 4] (1 / 2) = JNum v
          \<and> u \<le> v + Max (set [1, 2, 4]) / 2 ^ 48)
   \<and> percentile [1, 2, 4] 0 = JNum (Min (set [1, 2, 4]))
   \<and> percentile [1, 2, 4] 1 = JNum (Max (set [1, 2, 4]))"
  using percentile_monotone_up_to_rounding[of "[1, 2, 4]" "1 / 4" "1 / 2"] by simp

text \<open>Eight ratios of 21 at \<open>p = 0.01\<close>: the double nearest to 0.01, the index 0.07, the
  weights and the two products, each rounded, and their sum, which is one unit in the last
  place below 21.\<close>

lemma double_0_01: "fl (1 / 100) = 5764607523034235 / 2 ^ 59"
proof -
  have r: "round_even (2 ^ 59 / 100) = 5764607523034235"
    by (rule round_even_near) simp_all
  have "fl (1 / 100) = real_of_int (round_even ((1 / 100) / 2 powi (- 7 - 52))) * 2 powi (- 7 - 52)"
    by (rule fl_normal) (simp_all add: power_int_minus_divide)
  also have "(1 / 100) / (2::real) powi (- 7 - 52) = 2 ^ 59 / 100" by (simp add: power_int_minus_divide)
  finally show ?thesis unfolding r by (simp add: power_int_minus_divide)
qed

lemma nines_idx: "fl (7 * (5764607523034235 / 2 ^ 59)) = 5044031582654956 / 2 ^ 56"
  using fl_eval[of "7 * (5764607523034235 / 2 ^ 59)" "- 4" 5044031582654956]
  by (simp add: power_int_minus_divide)

lemma nines_w: "fl (5044031582654956 / 2 ^ 56) = 5044031582654956 / 2 ^ 56"
  using fl_eval[of "5044031582654956 / 2 ^ 56" "- 4" 5044031582654956]
  by (simp add: power_int_minus_divide)

lemma nines_a: "fl (1 - 5044031582654956 / 2 ^ 56) = 8376695306909122 / 2 ^ 53"
  using fl_eval_tie[of "1 - 5044031582654956 / 2 ^ 56" "- 1" 8376695306909122]
  by (simp add: power_int_minus_divide)

lemma nines_lo: "fl (21 * (8376695306909122 / 2 ^ 53)) = 5497206295159111 / 2 ^ 48"
  using fl_eval[of "21 * (8376695306909122 / 2 ^ 53)" 4 5497206295159111]
  by (simp add: power_int_minus_divide)

lemma nines_hi: "fl (21 * (5044031582654956 / 2 ^ 56)) = 6620291452234630 / 2 ^ 52"
  using fl_eval[of "21 * (5044031582654956 / 2 ^ 56)" 0 6620291452234630]
  by (simp add: power_int_minus_divide)

lemma nines_sum: "fl (5497206295159111 / 2 ^ 48 + 6620291452234630 / 2 ^ 52) = 21 - 1 / 2 ^ 48"
  using fl_eval[of "5497206295159111 / 2 ^ 48 + 6620291452234630 / 2 ^ 52" 4 5910974510923775]
  by (simp add: power_int_minus_divide)

lemma nines_floor: "\<lfloor>5044031582654956 / (2::real) ^ 56\<rfloor> = 0 \<and> \<lceil>5044031582654956 / (2::real) ^ 56\<rceil> = 1"
  by (simp add: ceiling_eq_iff)

lemma nines_value: "percentile (replicate 8 21) (fl (1 / 100)) = JNum (21 - 1 / 2 ^ 48)"
proof -
  have l: "real (length (replicate 8 (21::real)) - 1) = 7" by simp
  have "percentile (replicate 8 21) (fl (1 / 100))
      = JNum (fl (fl (replicate 8 21 ! nat 0 * fl (1 - 5044031582654956 / 2 ^ 56))
                + fl (replicate 8 21 ! nat 1 * (5044031582654956 / 2 ^ 56))))"
  proof (rule percentile_interp[where t = "5044031582654956 / 2 ^ 56"])
    show "replicate 8 (21::real) \<noteq> []" by simp
    show "fl (real (length (replicate 8 (21::real)) - 1) * fl (1 / 100)) = 5044031582654956 / 2 ^ 56"
      unfolding l double_0_01 by (rule nines_idx)
    show "\<lfloor>5044031582654956 / (2::real) ^ 56\<rfloor> = 0" using nines_floor by simp
    show "\<lceil>5044031582654956 / (2::real) ^ 56\<rceil> = 1" using nines_floor by simp
    show "(0::int) \<noteq> 1" by simp
    show "(0::int) \<le> 0" by simp
    show "1 < int (length (replicate 8 (21::real)))" by simp
    show "fl (5044031582654956 / 2 ^ 56 - real_of_int 0) = 5044031582654956 / 2 ^ 56"
      using nines_w by simp
  qed
  also have "replicate 8 (21::real) ! nat 0 = 21" by simp
  also have "replicate 8 (21::real) ! nat 1 = 21" by simp
  finally show ?thesis unfolding nines_a nines_lo nines_hi nines_sum .
qed

lemma nines_zero: "percentile (replicate 8 21) 0 = JNum 21"
  by (simp add: percentile_def Let_def fl_0 js_at_def)

text \<open>
  The claim as stated fails at this input: 0 is below the double 0.01, yet the percentile
  at 0 is 21, the least of the eight ratios, and the percentile at 0.01 is
  \<open>21 - 2\<^sup>-\<^sup>4\<^sup>8\<close>, which is 20.999999999999996 as JavaScript prints it.
\<close>

theorem percentile_not_monotone:
  "sorted (replicate 8 (21::real))
   \<and> fl (1 / 100) = 5764607523034235 / 2 ^ 59
   \<and> 0 \<le> fl (1 / 100) \<and> fl (1 / 100) \<le> 1
   \<and> percentile (replicate 8 21) 0 = JNum 21
   \<and> Min (set (replicate 8 (21::real))) = 21
   \<and> percentile (replicate 8 21) (fl (1 / 100)) = JNum (21 - 1 / 2 ^ 48)
   \<and> 21 - 1 / 2 ^ 48 < (21::real)"
  unfolding nines_zero nines_value unfolding double_0_01 by simp

subsection \<open>Contrast ratio\<close>

lemma srgbToLinear_range:
  assumes "0 \<le> c" "c \<le> 1"
  shows "0 \<le> srgbToLinear c \<and> srgbToLinear c \<le> 1"
proof (cases "c \<le> 0.04045")
  case True
  then show ?thesis using assms by (simp add: srgbToLinear_def)
next
  case False
  have b0: "0 \<le> (c + 0.055) / 1.055" using assms by simp
  have b1: "(c + 0.055) / 1.055 \<le> 1" using assms by simp
  have "((c + 0.055) / 1.055) powr 2.4 \<le> 1" using b0 b1 by (intro powr_le1) simp_all
  then show ?thesis using False by (simp add: srgbToLinear_def)
qed

lemma relLuminance_range:
  assumes "0 \<le> r" "r \<le> 255" "0 \<le> g" "g \<le> 255" "0 \<le> b" "b \<le> 255"
  shows "0 \<le> relLuminance r g b \<and> relLuminance r g b \<le> 1"
proof -
  have r: "0 \<le> srgbToLinear (r / 255) \<and> srgbToLinear (r / 255) \<le> 1"
    using assms by (intro srgbToLinear_range) simp_all
  have g: "0 \<le> srgbToLinear (g / 255) \<and> srgbToLinear (g / 255) \<le> 1"
    using assms by (intro srgbToLinear_range) simp_all
  have b: "0 \<le> srgbToLinear (b / 255) \<and> srgbToLinear (b / 255) \<le> 1"
    using assms by (intro srgbToLinear_range) simp_all
  show ?thesis using r g b by (simp add: relLuminance_def Let_def)
qed

lemma blend_range:
  assumes "a8 \<le> 255" "c8 \<le> 255" "bgc \<le> (255::nat)"
  shows "0 \<le> math_round (real a8 / 255 * real c8 + (1 - real a8 / 255) * real bgc)
       \<and> math_round (real a8 / 255 * real c8 + (1 - real a8 / 255) * real bgc) \<le> 255"
proof -
  define a where "a = real a8 / 255"
  have a0: "0 \<le> a" and a1: "a \<le> 1" using assms by (simp_all add: a_def)
  have lo: "0 \<le> a * real c8 + (1 - a) * real bgc" using a0 a1 by simp
  have "a * real c8 \<le> a * 255" using a0 assms by (intro mult_left_mono) simp_all
  moreover have "(1 - a) * real bgc \<le> (1 - a) * 255" using a1 assms by (intro mult_left_mono) simp_all
  ultimately have hi: "a * real c8 + (1 - a) * real bgc \<le> 255" by (simp add: algebra_simps)
  have "0 \<le> \<lfloor>a * real c8 + (1 - a) * real bgc + 1 / 2\<rfloor>" using lo by simp
  moreover have "\<lfloor>a * real c8 + (1 - a) * real bgc + 1 / 2\<rfloor> \<le> 255"
    using hi by (simp add: floor_le_iff)
  ultimately show ?thesis by (simp add: math_round_def a_def)
qed

lemma ratio_core:
  assumes "0 \<le> Lp" "Lp \<le> 1" "0 \<le> Lb" "Lb \<le> (1::real)"
  shows "1 \<le> (max Lp Lb + 0.05) / (min Lp Lb + 0.05) \<and> (max Lp Lb + 0.05) / (min Lp Lb + 0.05) \<le> 21"
proof -
  have d: "0 < min Lp Lb + 0.05" using assms by simp
  have "min Lp Lb + 0.05 \<le> max Lp Lb + 0.05" by simp
  then have one: "1 \<le> (max Lp Lb + 0.05) / (min Lp Lb + 0.05)" using d by (simp add: le_divide_eq)
  have "max Lp Lb + 0.05 \<le> 21 * (min Lp Lb + 0.05)" using assms by simp
  then have "(max Lp Lb + 0.05) / (min Lp Lb + 0.05) \<le> 21" using d by (simp add: divide_le_eq)
  with one show ?thesis by simp
qed

lemma ratio_web_eq: "contrastRatioPixelVsBg_web r g b a bg = contrastRatioPixelVsBg r g b a bg"
  by (cases bg) (simp add: contrastRatioPixelVsBg_web_def contrastRatioPixelVsBg_def composite_def Let_def)

lemma ratio_range:
  assumes "r \<le> 255" "g \<le> 255" "b \<le> 255" "a \<le> 255" "rgb_ok bg"
  shows "1 \<le> contrastRatioPixelVsBg r g b a bg \<and> contrastRatioPixelVsBg r g b a bg \<le> 21"
proof -
  obtain bg0 bg1 bg2 where bg: "bg = (bg0, bg1, bg2)" by (cases bg) auto
  have ok: "bg0 \<le> 255" "bg1 \<le> 255" "bg2 \<le> 255" using assms(5) by (simp_all add: rgb_ok_def bg)
  note cr = blend_range[OF assms(4) assms(1) ok(1)]
  note cg = blend_range[OF assms(4) assms(2) ok(2)]
  note cb = blend_range[OF assms(4) assms(3) ok(3)]
  have Lp: "0 \<le> relLuminance (real_of_int (math_round (real a / 255 * real r + (1 - real a / 255) * real bg0)))
                (real_of_int (math_round (real a / 255 * real g + (1 - real a / 255) * real bg1)))
                (real_of_int (math_round (real a / 255 * real b + (1 - real a / 255) * real bg2)))
          \<and> relLuminance (real_of_int (math_round (real a / 255 * real r + (1 - real a / 255) * real bg0)))
                (real_of_int (math_round (real a / 255 * real g + (1 - real a / 255) * real bg1)))
                (real_of_int (math_round (real a / 255 * real b + (1 - real a / 255) * real bg2))) \<le> 1"
    using cr cg cb by (intro relLuminance_range) simp_all
  have Lb: "0 \<le> relLuminance (real bg0) (real bg1) (real bg2) \<and> relLuminance (real bg0) (real bg1) (real bg2) \<le> 1"
    using ok by (intro relLuminance_range) simp_all
  show ?thesis
    using ratio_core[of _ "relLuminance (real bg0) (real bg1) (real bg2)"] Lp Lb
    by (simp add: contrastRatioPixelVsBg_def composite_def bg Let_def)
qed

lemma math_round_of_nat: "math_round (real n) = int n"
  by (simp add: math_round_def)

lemma composite_opaque: "composite r g b 255 bg = (int r, int g, int b)"
  by (cases bg) (simp add: composite_def math_round_of_nat)

lemma ratio_same_colour:
  assumes "r \<le> 255" "g \<le> 255" "b \<le> 255"
  shows "contrastRatioPixelVsBg r g b 255 (r, g, b) = 1"
proof -
  have "0 \<le> relLuminance (real r) (real g) (real b)"
    using assms relLuminance_range[of "real r" "real g" "real b"] by simp
  then show ?thesis
    by (simp add: contrastRatioPixelVsBg_def composite_opaque Let_def)
qed

lemma srgbToLinear_0: "srgbToLinear 0 = 0" by (simp add: srgbToLinear_def)
lemma srgbToLinear_1: "srgbToLinear 1 = 1" by (simp add: srgbToLinear_def)

lemma ratio_black_white: "contrastRatioPixelVsBg 0 0 0 255 (255, 255, 255) = 21"
  using composite_opaque[of 0 0 0 "(255,255,255)"]
  by (simp add: contrastRatioPixelVsBg_def relLuminance_def srgbToLinear_0 srgbToLinear_1 Let_def)

lemma unat_byte: "unat (w :: 8 word) \<le> 255"
  using unsigned_less[of w, where 'a = nat] by simp

text \<open>
  Claim C4. For a pixel of the buffer and a background colour with channels up to 255, the
  ratio of both call sites lies between 1 and 21; an opaque pixel on a background of its own
  colour has ratio 1; opaque black on white has ratio 21.
\<close>

theorem contrast_ratio_range:
  fixes r g b a :: "8 word"
  assumes "rgb_ok bg"
  shows "1 \<le> contrastRatioPixelVsBg (unat r) (unat g) (unat b) (unat a) bg
       \<and> contrastRatioPixelVsBg (unat r) (unat g) (unat b) (unat a) bg \<le> 21
       \<and> 1 \<le> contrastRatioPixelVsBg_web (unat r) (unat g) (unat b) (unat a) bg
       \<and> contrastRatioPixelVsBg_web (unat r) (unat g) (unat b) (unat a) bg \<le> 21
       \<and> contrastRatioPixelVsBg (unat r) (unat g) (unat b) 255 (unat r, unat g, unat b) = 1
       \<and> contrastRatioPixelVsBg_web (unat r) (unat g) (unat b) 255 (unat r, unat g, unat b) = 1
       \<and> contrastRatioPixelVsBg 0 0 0 255 (255, 255, 255) = 21
       \<and> contrastRatioPixelVsBg_web 0 0 0 255 (255, 255, 255) = 21"
  using ratio_range[OF unat_byte unat_byte unat_byte unat_byte assms, of r g b a]
    ratio_same_colour[OF unat_byte unat_byte unat_byte, of r g b] ratio_black_white
  by (simp add: ratio_web_eq)

theorem contrast_ratio_range_witness:
  "rgb_ok (255, 255, 255)
   \<and> 1 \<le> contrastRatioPixelVsBg (unat (130 :: 8 word)) (unat (130 :: 8 word)) (unat (130 :: 8 word))
          (unat (255 :: 8 word)) (255, 255, 255)
   \<and> contrastRatioPixelVsBg (unat (130 :: 8 word)) (unat (130 :: 8 word)) (unat (130 :: 8 word))
          (unat (255 :: 8 word)) (255, 255, 255) \<le> 21"
  using contrast_ratio_range[of "(255, 255, 255)" 130 130 130 255] by (simp add: rgb_ok_def)

subsection \<open>Flood fill\<close>

subsubsection \<open>Indices and coordinates\<close>

lemma idx_mod: "x < W \<Longrightarrow> (y * W + x) mod W = (x::nat)" by simp
lemma idx_div: "x < W \<Longrightarrow> (y * W + x) div W = (y::nat)" by simp
lemma idx_lt: "x < W \<Longrightarrow> y < H \<Longrightarrow> y * W + x < W * (H::nat)"
proof -
  assume a: "x < W" "y < H"
  have "y * W + x < y * W + W" using a by simp
  also have "\<dots> = (y + 1) * W" by simp
  also have "\<dots> \<le> H * W" using a by (intro mult_le_mono1) simp
  finally show ?thesis by (simp add: mult.commute)
qed
lemma div_lt: "i < W * H \<Longrightarrow> i div W < (H::nat)"
  by (simp add: less_mult_imp_div_less mult.commute)
lemma mod_lt: "i < W * H \<Longrightarrow> i mod W < (W::nat)"
  by (cases "W = 0") auto

subsubsection \<open>The invariant\<close>

lemma reach_near: "reach W H near x y \<Longrightarrow> near (y * W + x)"
  by (induction rule: reach.induct) auto

lemma reach_in: "reach W H near x y \<Longrightarrow> x < W \<and> y < H"
  by (induction rule: reach.induct) auto

lemma unmarked_update: "j < length bg \<Longrightarrow> \<not> bg ! j \<Longrightarrow> Suc (unmarked (bg[j := True])) = unmarked bg"
proof (induction bg arbitrary: j)
  case Nil then show ?case by simp
next
  case (Cons b bs)
  then show ?case by (cases j) (auto simp: unmarked_def)
qed

lemma reachI_step:
  assumes "reachI W H near i" "adjI W i j" "j < W * H" "near j"
  shows "reachI W H near j"
proof -
  have "j div W * W + j mod W = j" by simp
  then have "near (j div W * W + j mod W)" using assms(4) by simp
  then show ?thesis
    using assms reach.step[of W H near "i mod W" "i div W" "j mod W" "j div W"]
    by (simp add: reachI_def adjI_def div_lt mod_lt)
qed

lemma fill_inv_mark:
  assumes inv: "fill_inv W H near P bg Q" and j: "j < W * H" and r: "reachI W H near j"
  shows "fill_inv W H near P (bg[j := True]) (insert j Q)"
  using inv j r unfolding fill_inv_def
  by (auto simp: nth_list_update)

lemma fill_inv_done:
  assumes inv: "fill_inv W H near P bg Q" and i: "i < W * H"
    and cl: "\<forall>j<W * H. adjI W i j \<longrightarrow> near j \<longrightarrow> bg ! j"
  shows "fill_inv W H near (P - {i}) bg Q"
  using inv i cl unfolding fill_inv_def by auto

lemma fill_inv_pop:
  assumes inv: "fill_inv W H near P bg (insert i Q)"
  shows "fill_inv W H near (insert i P) bg Q"
  using inv unfolding fill_inv_def by auto

text \<open>A mask that holds the seeds and is closed under the neighbours that pass the test holds
  every reached pixel.\<close>

lemma closed_reach:
  assumes r: "reach W H near x y"
    and seeds: "\<And>x y. x < W \<Longrightarrow> y < H \<Longrightarrow> onBorder W H x y \<Longrightarrow> near (y * W + x) \<Longrightarrow> bg ! (y * W + x)"
    and inv: "fill_inv W H near {} bg {}"
  shows "bg ! (y * W + x)"
  using r
proof (induction rule: reach.induct)
  case (seed x y)
  then show ?case using seeds by simp
next
  case (step x y x' y')
  have i: "y * W + x < W * H" using reach_in[OF step(1)] by (simp add: idx_lt)
  have j: "y' * W + x' < W * H" using step by (simp add: idx_lt)
  have xw: "x < W" using reach_in[OF step(1)] by simp
  have "adjI W (y * W + x) (y' * W + x')" using step xw by (simp add: adjI_def)
  then show ?case using inv i j step unfolding fill_inv_def by blast
qed

subsubsection \<open>The fill with a stack\<close>

lemma grows_refl: "grows W H bg bg" by (simp add: grows_def)

lemma grows_trans: "grows W H a b \<Longrightarrow> grows W H b c \<Longrightarrow> grows W H a c" by (simp add: grows_def)

lemma inGridI_idx:
  assumes "inGridI W H x y"
  shows "nat (y * int W + x) = nat y * W + nat x" "nat x < W" "nat y < H" "nat (y * int W + x) < W * H"
proof -
  have x: "0 \<le> x" "x < int W" and y: "0 \<le> y" "y < int H" using assms by (simp_all add: inGridI_def)
  show a: "nat (y * int W + x) = nat y * W + nat x"
    using x y by (simp add: nat_add_distrib nat_mult_distrib)
  show b: "nat x < W" using x by simp
  show c: "nat y < H" using y by simp
  show "nat (y * int W + x) < W * H" unfolding a using b c by (rule idx_lt)
qed

lemma pushIf_out: "\<not> inGridI W H x y \<Longrightarrow> pushIf W H near x y st = st"
  by (cases st) (auto simp: pushIf_def inGridI_def)

lemma pushIf_in:
  assumes g: "inGridI W H x y" and inv: "lifo_inv W H near P st"
    and r: "near (nat (y * int W + x)) \<Longrightarrow> reachI W H near (nat (y * int W + x))"
  shows "lifo_inv W H near P (pushIf W H near x y st)
       \<and> grows W H (fst st) (fst (pushIf W H near x y st))
       \<and> fill_measure (pushIf W H near x y st) \<le> fill_measure st
       \<and> (near (nat (y * int W + x)) \<longrightarrow> fst (pushIf W H near x y st) ! nat (y * int W + x))"
proof -
  obtain bg q where st: "st = (bg, q)" by (cases st)
  let ?j = "nat (y * int W + x)"
  have j: "?j < W * H" using inGridI_idx(4)[OF g] .
  have len: "length bg = W * H" using inv by (simp add: lifo_inv_def fill_inv_def st)
  have ng: "\<not> (x < 0 \<or> y < 0 \<or> x \<ge> int W \<or> y \<ge> int H)" using g by (auto simp: inGridI_def)
  show ?thesis
  proof (cases "bg ! ?j \<or> \<not> near ?j")
    case True
    then have "pushIf W H near x y st = st"
      using ng j len by (auto simp: pushIf_def st mget_def Let_def)
    then show ?thesis using inv True by (auto simp: grows_def st)
  next
    case False
    then have eq: "pushIf W H near x y st = (bg[?j := True], (x, y) # q)"
      using ng j len by (auto simp: pushIf_def st mget_def Let_def)
    have "fill_inv W H near P (bg[?j := True]) (insert ?j (qidx W ` set q))"
      using inv j r False by (intro fill_inv_mark) (simp_all add: lifo_inv_def st)
    then have i1: "lifo_inv W H near P (bg[?j := True], (x, y) # q)"
      using inv g by (simp add: lifo_inv_def st qidx_def)
    have m: "Suc (unmarked (bg[?j := True])) = unmarked bg"
      using False j len by (intro unmarked_update) simp_all
    show ?thesis unfolding eq using i1 m j len
      by (auto simp: grows_def st fill_measure_def nth_list_update)
  qed
qed

lemma pushIf_any:
  assumes inv: "lifo_inv W H near P st"
    and r: "inGridI W H x y \<Longrightarrow> near (nat (y * int W + x)) \<Longrightarrow> reachI W H near (nat (y * int W + x))"
  shows "lifo_inv W H near P (pushIf W H near x y st)
       \<and> grows W H (fst st) (fst (pushIf W H near x y st))
       \<and> fill_measure (pushIf W H near x y st) \<le> fill_measure st
       \<and> (inGridI W H x y \<longrightarrow> near (nat (y * int W + x)) \<longrightarrow> fst (pushIf W H near x y st) ! nat (y * int W + x))"
proof (cases "inGridI W H x y")
  case True
  then show ?thesis using pushIf_in[OF True inv] r by blast
next
  case False
  then show ?thesis using inv by (simp add: pushIf_out grows_refl)
qed

lemma adjI_coords:
  assumes g: "inGridI W H x y" and j: "j < W * H" and a: "adjI W (nat (y * int W + x)) j"
  shows "\<exists>x' y'. inGridI W H x' y' \<and> j = nat (y' * int W + x')
           \<and> ((x' = x + 1 \<and> y' = y) \<or> (x' = x - 1 \<and> y' = y) \<or> (x' = x \<and> y' = y + 1) \<or> (x' = x \<and> y' = y - 1))"
proof -
  have i: "nat (y * int W + x) = nat y * W + nat x" and xw: "nat x < W" and yh: "nat y < H"
    using inGridI_idx[OF g] by simp_all
  have x0: "0 \<le> x" and y0: "0 \<le> y" using g by (simp_all add: inGridI_def)
  have jm: "j mod W < W" and jd: "j div W < H" using j by (simp_all add: mod_lt div_lt)
  have jj: "j = nat (int (j div W) * int W + int (j mod W))"
    by (simp add: nat_add_distrib nat_mult_distrib flip: of_nat_mult of_nat_add)
  have gj: "inGridI W H (int (j mod W)) (int (j div W))" using jm jd by (simp add: inGridI_def)
  obtain xn yn where xy: "x = int xn" "y = int yn" using x0 y0 by (meson nonneg_int_cases)
  have "adj4 (nat x) (nat y) (j mod W) (j div W)" using a xw by (simp add: adjI_def i)
  then have "adj4 xn yn (j mod W) (j div W)" by (simp add: xy)
  then have "(int (j mod W) = x + 1 \<and> int (j div W) = y) \<or> (int (j mod W) = x - 1 \<and> int (j div W) = y)
       \<or> (int (j mod W) = x \<and> int (j div W) = y + 1) \<or> (int (j mod W) = x \<and> int (j div W) = y - 1)"
    unfolding adj4_def xy by (elim disjE conjE) simp_all
  then show ?thesis using gj jj by blast
qed

lemma adjI_nbr:
  assumes g: "inGridI W H x y" and g': "inGridI W H x' y'"
    and n: "(x' = x + 1 \<and> y' = y) \<or> (x' = x - 1 \<and> y' = y) \<or> (x' = x \<and> y' = y + 1) \<or> (x' = x \<and> y' = y - 1)"
  shows "adjI W (nat (y * int W + x)) (nat (y' * int W + x'))"
proof -
  have i: "nat (y * int W + x) = nat y * W + nat x" and xw: "nat x < W"
    using inGridI_idx[OF g] by simp_all
  have j: "nat (y' * int W + x') = nat y' * W + nat x'" and xw': "nat x' < W"
    using inGridI_idx[OF g'] by simp_all
  have "0 \<le> x" "0 \<le> y" "0 \<le> x'" "0 \<le> y'" using g g' by (simp_all add: inGridI_def)
  then obtain xn yn xn' yn' where xy: "x = int xn" "y = int yn" "x' = int xn'" "y' = int yn'"
    by (meson nonneg_int_cases)
  have "adj4 (nat x) (nat y) (nat x') (nat y')"
    using n unfolding adj4_def xy by (elim disjE conjE) (simp_all, linarith+)
  then show ?thesis using xw xw' by (simp add: adjI_def i j)
qed

lemma popStep_inv:
  assumes inv: "lifo_inv W H near {} st" and ne: "snd st \<noteq> []"
  shows "lifo_inv W H near {} (popStep W H near st)
       \<and> grows W H (fst st) (fst (popStep W H near st))
       \<and> fill_measure (popStep W H near st) < fill_measure st"
proof -
  obtain bg x y rest where st: "st = (bg, (x, y) # rest)" using ne by (cases st; cases "snd st") auto
  let ?i = "nat (y * int W + x)"
  have g: "inGridI W H x y" using inv by (simp add: lifo_inv_def st)
  have fi: "fill_inv W H near {} bg (insert ?i (qidx W ` set rest))"
    using inv by (simp add: lifo_inv_def st qidx_def)
  have iW: "?i < W * H" using inGridI_idx(4)[OF g] .
  have ri: "reachI W H near ?i" using fi iW unfolding fill_inv_def by blast
  define s0 :: fill where "s0 = (bg, rest)"
  define s1 where "s1 = pushIf W H near (x + 1) y s0"
  define s2 where "s2 = pushIf W H near (x - 1) y s1"
  define s3 where "s3 = pushIf W H near x (y + 1) s2"
  define s4 where "s4 = pushIf W H near x (y - 1) s3"
  have ps: "popStep W H near st = s4"
    by (simp add: popStep_def st s4_def s3_def s2_def s1_def s0_def)
  have i0: "lifo_inv W H near {?i} s0"
    using fill_inv_pop[OF fi] inv by (simp add: lifo_inv_def st s0_def)
  have m0: "fill_measure s0 < fill_measure st" by (simp add: fill_measure_def s0_def st)
  have rr: "\<And>x' y'. (x' = x + 1 \<and> y' = y) \<or> (x' = x - 1 \<and> y' = y) \<or> (x' = x \<and> y' = y + 1) \<or> (x' = x \<and> y' = y - 1)
      \<Longrightarrow> inGridI W H x' y' \<Longrightarrow> near (nat (y' * int W + x')) \<Longrightarrow> reachI W H near (nat (y' * int W + x'))"
    using reachI_step[OF ri adjI_nbr[OF g]] inGridI_idx(4) by blast
  have p1: "lifo_inv W H near {?i} s1 \<and> grows W H (fst s0) (fst s1) \<and> fill_measure s1 \<le> fill_measure s0
       \<and> (inGridI W H (x + 1) y \<longrightarrow> near (nat (y * int W + (x + 1))) \<longrightarrow> fst s1 ! nat (y * int W + (x + 1)))"
    unfolding s1_def by (rule pushIf_any[OF i0]) (simp add: rr)
  have i1: "lifo_inv W H near {?i} s1" using p1 by simp
  have p2: "lifo_inv W H near {?i} s2 \<and> grows W H (fst s1) (fst s2) \<and> fill_measure s2 \<le> fill_measure s1
       \<and> (inGridI W H (x - 1) y \<longrightarrow> near (nat (y * int W + (x - 1))) \<longrightarrow> fst s2 ! nat (y * int W + (x - 1)))"
    unfolding s2_def by (rule pushIf_any[OF i1]) (simp add: rr)
  have i2: "lifo_inv W H near {?i} s2" using p2 by simp
  have p3: "lifo_inv W H near {?i} s3 \<and> grows W H (fst s2) (fst s3) \<and> fill_measure s3 \<le> fill_measure s2
       \<and> (inGridI W H x (y + 1) \<longrightarrow> near (nat ((y + 1) * int W + x)) \<longrightarrow> fst s3 ! nat ((y + 1) * int W + x))"
    unfolding s3_def by (rule pushIf_any[OF i2]) (simp add: rr)
  have i3: "lifo_inv W H near {?i} s3" using p3 by simp
  have p4: "lifo_inv W H near {?i} s4 \<and> grows W H (fst s3) (fst s4) \<and> fill_measure s4 \<le> fill_measure s3
       \<and> (inGridI W H x (y - 1) \<longrightarrow> near (nat ((y - 1) * int W + x)) \<longrightarrow> fst s4 ! nat ((y - 1) * int W + x))"
    unfolding s4_def by (rule pushIf_any[OF i3]) (simp add: rr)
  have i4: "lifo_inv W H near {?i} s4" using p4 by simp
  have g01: "grows W H (fst s0) (fst s1)" and g12: "grows W H (fst s1) (fst s2)"
    and g23: "grows W H (fst s2) (fst s3)" and g34: "grows W H (fst s3) (fst s4)"
    using p1 p2 p3 p4 by simp_all
  have g04: "grows W H (fst s0) (fst s4)" using g01 g12 g23 g34 grows_trans by blast
  have g14: "grows W H (fst s1) (fst s4)" using g12 g23 g34 grows_trans by blast
  have g24: "grows W H (fst s2) (fst s4)" using g23 g34 grows_trans by blast
  have m1: "fill_measure s1 \<le> fill_measure s0" using p1 by (elim conjE)
  have m2: "fill_measure s2 \<le> fill_measure s1" using p2 by (elim conjE)
  have m3: "fill_measure s3 \<le> fill_measure s2" using p3 by (elim conjE)
  have m4': "fill_measure s4 \<le> fill_measure s3" using p4 by (elim conjE)
  have m4: "fill_measure s4 \<le> fill_measure s0" using m1 m2 m3 m4' by linarith
  have cl: "\<forall>j<W * H. adjI W ?i j \<longrightarrow> near j \<longrightarrow> fst s4 ! j"
  proof (intro allI impI)
    fix j assume j: "j < W * H" and a: "adjI W ?i j" and n: "near j"
    obtain x' y' where g': "inGridI W H x' y'" and jj: "j = nat (y' * int W + x')"
      and c: "(x' = x + 1 \<and> y' = y) \<or> (x' = x - 1 \<and> y' = y) \<or> (x' = x \<and> y' = y + 1) \<or> (x' = x \<and> y' = y - 1)"
      using adjI_coords[OF g j a] by blast
    from c show "fst s4 ! j"
    proof (elim disjE conjE)
      assume "x' = x + 1" "y' = y"
      then have "fst s1 ! j" using p1 g' n jj by simp
      then show ?thesis using g14 j by (simp add: grows_def)
    next
      assume "x' = x - 1" "y' = y"
      then have "fst s2 ! j" using p2 g' n jj by simp
      then show ?thesis using g24 j by (simp add: grows_def)
    next
      assume "x' = x" "y' = y + 1"
      then have "fst s3 ! j" using p3 g' n jj by simp
      then show ?thesis using g34 j by (simp add: grows_def)
    next
      assume "x' = x" "y' = y - 1"
      then show ?thesis using p4 g' n jj by simp
    qed
  qed
  have "fill_inv W H near ({?i} - {?i}) (fst s4) (qidx W ` set (snd s4))"
    using i4 iW cl by (intro fill_inv_done) (simp_all add: lifo_inv_def)
  then have "lifo_inv W H near {} s4" using i4 by (simp add: lifo_inv_def)
  moreover have "grows W H (fst st) (fst s4)" using g04 by (simp add: s0_def st)
  ultimately show ?thesis using m4 m0 unfolding ps by simp
qed

lemma drain_total:
  assumes "lifo_inv W H near {} st"
  shows "\<exists>bg'. drain W H near st = Some bg' \<and> fill_inv W H near {} bg' {} \<and> grows W H (fst st) bg'"
  using assms
proof (induction "fill_measure st" arbitrary: st rule: less_induct)
  case less
  show ?case
  proof (cases "snd st = []")
    case True
    then have "drain W H near st = Some (fst st)" by (subst drain.simps) simp
    moreover have "fill_inv W H near {} (fst st) {}" using less.prems True by (simp add: lifo_inv_def)
    ultimately show ?thesis by (simp add: grows_refl)
  next
    case False
    note ps = popStep_inv[OF less.prems False]
    obtain bg' where d: "drain W H near (popStep W H near st) = Some bg'"
      and f: "fill_inv W H near {} bg' {}" and gr: "grows W H (fst (popStep W H near st)) bg'"
      using less.hyps[of "popStep W H near st"] ps by blast
    have "drain W H near st = Some bg'" using d False by (subst drain.simps) simp
    moreover have "grows W H (fst st) bg'" using ps gr grows_trans by blast
    ultimately show ?thesis using f by simp
  qed
qed

subsubsection \<open>Seeding from the border\<close>

lemma fold_inv_post_aux:
  assumes refl: "\<And>s. R s s"
    and trans: "\<And>a b c. R a b \<Longrightarrow> R b c \<Longrightarrow> R a c"
    and stable: "\<And>x a b. Q x a \<Longrightarrow> R a b \<Longrightarrow> Q x b"
  shows "I s \<Longrightarrow> \<forall>x\<in>set xs. \<forall>s. I s \<longrightarrow> I (f x s) \<and> R s (f x s) \<and> Q x (f x s)
     \<Longrightarrow> I (fold f xs s) \<and> R s (fold f xs s) \<and> (\<forall>x\<in>set xs. Q x (fold f xs s))"
proof (induction xs arbitrary: s)
  case Nil
  then show ?case using refl by simp
next
  case (Cons x xs)
  have a: "I (f x s)" "R s (f x s)" "Q x (f x s)" using Cons.prems by simp_all
  have ih: "I (fold f xs (f x s)) \<and> R (f x s) (fold f xs (f x s)) \<and> (\<forall>z\<in>set xs. Q z (fold f xs (f x s)))"
    using Cons.IH[OF a(1)] Cons.prems(2) by simp
  have r: "R s (fold f xs (f x s))" using a(2) ih trans by blast
  have q: "Q x (fold f xs (f x s))" using a(3) ih stable by blast
  show ?case using ih r q by simp
qed

lemma fold_inv_post:
  assumes "I s"
    and step: "\<And>x s. x \<in> set xs \<Longrightarrow> I s \<Longrightarrow> I (f x s) \<and> R s (f x s) \<and> Q x (f x s)"
    and refl: "\<And>s. R s s"
    and trans: "\<And>a b c. R a b \<Longrightarrow> R b c \<Longrightarrow> R a c"
    and stable: "\<And>x a b. Q x a \<Longrightarrow> R a b \<Longrightarrow> Q x b"
  shows "I (fold f xs s) \<and> R s (fold f xs s) \<and> (\<forall>x\<in>set xs. Q x (fold f xs s))"
proof (rule fold_inv_post_aux[where R = R and Q = Q and I = I])
  show "I s" by (rule assms(1))
  show "\<forall>x\<in>set xs. \<forall>s. I s \<longrightarrow> I (f x s) \<and> R s (f x s) \<and> Q x (f x s)" using step by blast
qed (use refl trans stable in blast)+

lemma seed_reachI:
  assumes g: "inGridI W H x y" and b: "onBorder W H (nat x) (nat y)" and n: "near (nat (y * int W + x))"
  shows "reachI W H near (nat (y * int W + x))"
proof -
  note i = inGridI_idx[OF g]
  have "reach W H near (nat x) (nat y)" using i b n by (intro reach.seed) simp_all
  then show ?thesis using i by (simp add: reachI_def)
qed

lemma push_seed:
  assumes inv: "lifo_inv W H near {} st" and b: "inGridI W H x y \<Longrightarrow> onBorder W H (nat x) (nat y)"
  shows "lifo_inv W H near {} (pushIf W H near x y st)
       \<and> grows W H (fst st) (fst (pushIf W H near x y st))
       \<and> (inGridI W H x y \<longrightarrow> near (nat (y * int W + x)) \<longrightarrow> fst (pushIf W H near x y st) ! nat (y * int W + x))"
  using pushIf_any[OF inv, of x y] seed_reachI b by blast

lemma seedBorder_inv:
  assumes W: "0 < W" and H: "0 < H" and inv: "lifo_inv W H near {} st0"
  shows "lifo_inv W H near {} (seedBorder W H near st0)
       \<and> grows W H (fst st0) (fst (seedBorder W H near st0))
       \<and> (\<forall>x<W. \<forall>y<H. onBorder W H x y \<longrightarrow> near (y * W + x) \<longrightarrow> fst (seedBorder W H near st0) ! (y * W + x))"
proof -
  define f where "f = (\<lambda>x st. pushIf W H near (int x) (int H - 1) (pushIf W H near (int x) 0 st))"
  define g where "g = (\<lambda>y st. pushIf W H near (int W - 1) (int y) (pushIf W H near 0 (int y) st))"
  define st1 where "st1 = fold f [0..<W] st0"
  define st2 where "st2 = fold g [0..<H] st1"
  define Qx where "Qx = (\<lambda>x (s::fill). (near x \<longrightarrow> fst s ! x) \<and> (near ((H - 1) * W + x) \<longrightarrow> fst s ! ((H - 1) * W + x)))"
  define Qy where "Qy = (\<lambda>y (s::fill). (near (y * W) \<longrightarrow> fst s ! (y * W)) \<and> (near (y * W + (W - 1)) \<longrightarrow> fst s ! (y * W + (W - 1))))"
  define R where "R = (\<lambda>(a::fill) (b::fill). grows W H (fst a) (fst b))"
  have sb: "seedBorder W H near st0 = st2"
    by (simp add: seedBorder_def st2_def st1_def f_def g_def)
  have stepx: "I" if "x \<in> set [0..<W]" "lifo_inv W H near {} s"
    "I = (lifo_inv W H near {} (f x s) \<and> R s (f x s) \<and> Qx x (f x s))" for x s I
  proof -
    have x: "x < W" using that by simp
    have g0: "inGridI W H (int x) 0" using x H by (simp add: inGridI_def)
    have g1: "inGridI W H (int x) (int H - 1)" using x H by (simp add: inGridI_def)
    have e0: "nat (0 * int W + int x) = x" by simp
    have e1: "nat ((int H - 1) * int W + int x) = (H - 1) * W + x"
      using inGridI_idx(1)[OF g1] H by (simp add: nat_diff_distrib)
    note a = push_seed[OF that(2), of "int x" 0]
    have a': "lifo_inv W H near {} (pushIf W H near (int x) 0 s)" using a by (simp add: onBorder_def)
    note b = push_seed[OF a', of "int x" "int H - 1"]
    have a1: "grows W H (fst s) (fst (pushIf W H near (int x) 0 s))"
         "near x \<longrightarrow> fst (pushIf W H near (int x) 0 s) ! x"
      using a g0 e0 by (simp_all add: onBorder_def)
    have b1: "lifo_inv W H near {} (f x s)" "grows W H (fst (pushIf W H near (int x) 0 s)) (fst (f x s))"
         "near ((H - 1) * W + x) \<longrightarrow> fst (f x s) ! ((H - 1) * W + x)"
      using b g1 e1 H by (simp_all add: onBorder_def f_def nat_diff_distrib)
    have "x < W * H" using x H by (metis idx_lt[of x W 0 H] add_0 mult_0)
    then have "near x \<longrightarrow> fst (f x s) ! x" using a1(2) b1(2) by (auto simp: grows_def)
    then show ?thesis using a1 b1 grows_trans unfolding that(3) R_def Qx_def by blast
  qed
  have stepy: "I" if "y \<in> set [0..<H]" "lifo_inv W H near {} s"
    "I = (lifo_inv W H near {} (g y s) \<and> R s (g y s) \<and> Qy y (g y s))" for y s I
  proof -
    have y: "y < H" using that by simp
    have g0: "inGridI W H 0 (int y)" using y W by (simp add: inGridI_def)
    have g1: "inGridI W H (int W - 1) (int y)" using y W by (simp add: inGridI_def)
    have e0: "nat (int y * int W + 0) = y * W" by (simp add: nat_mult_distrib)
    have e1: "nat (int y * int W + (int W - 1)) = y * W + (W - 1)"
      using inGridI_idx(1)[OF g1] W by (simp add: nat_diff_distrib)
    note a = push_seed[OF that(2), of 0 "int y"]
    have a': "lifo_inv W H near {} (pushIf W H near 0 (int y) s)" using a by (simp add: onBorder_def)
    note b = push_seed[OF a', of "int W - 1" "int y"]
    have a1: "grows W H (fst s) (fst (pushIf W H near 0 (int y) s))"
         "near (y * W) \<longrightarrow> fst (pushIf W H near 0 (int y) s) ! (y * W)"
      using a g0 e0 by (simp_all add: onBorder_def)
    have b1: "lifo_inv W H near {} (g y s)" "grows W H (fst (pushIf W H near 0 (int y) s)) (fst (g y s))"
         "near (y * W + (W - 1)) \<longrightarrow> fst (g y s) ! (y * W + (W - 1))"
      using b g1 e1 W by (simp_all add: onBorder_def g_def nat_diff_distrib)
    have "y * W + 0 < W * H" using y W by (intro idx_lt) simp_all
    then have "near (y * W) \<longrightarrow> fst (g y s) ! (y * W)" using a1(2) b1(2) by (auto simp: grows_def)
    then show ?thesis using a1 b1 grows_trans unfolding that(3) R_def Qy_def by blast
  qed
  have stabx: "Qx x b" if "Qx x a" "R a b" "x < W" for x a b
  proof -
    have "x + 0 < W * H" "(H - 1) * W + x < W * H" using that(3) H idx_lt[of x W 0 H] idx_lt[of x W "H - 1" H] by simp_all
    then show ?thesis using that unfolding Qx_def R_def grows_def by auto
  qed
  have staby: "Qy y b" if "Qy y a" "R a b" "y < H" for y a b
  proof -
    have "y * W + 0 < W * H" "y * W + (W - 1) < W * H" using that(3) W idx_lt[of 0 W y H] idx_lt[of "W - 1" W y H] by simp_all
    then show ?thesis using that unfolding Qy_def R_def grows_def by auto
  qed
  have rr: "\<And>s. R s s" by (simp add: R_def grows_refl)
  have rt: "\<And>a b c. R a b \<Longrightarrow> R b c \<Longrightarrow> R a c" unfolding R_def by (rule grows_trans)
  have l1: "lifo_inv W H near {} st1 \<and> R st0 st1 \<and> (\<forall>x\<in>set [0..<W]. (x < W \<and> Qx x st1))"
    unfolding st1_def
  proof (rule fold_inv_post[where I = "lifo_inv W H near {}" and R = R and Q = "\<lambda>x s. x < W \<and> Qx x s"])
    show "lifo_inv W H near {} st0" by (rule inv)
    show "lifo_inv W H near {} (f x s) \<and> R s (f x s) \<and> x < W \<and> Qx x (f x s)"
      if "x \<in> set [0..<W]" "lifo_inv W H near {} s" for x s
      using stepx[OF that refl] that(1) by simp
    show "x < W \<and> Qx x b" if "x < W \<and> Qx x a" "R a b" for x a b
      using stabx[of x a b] that by simp
  qed (rule rr, rule rt)
  have l2: "lifo_inv W H near {} st2 \<and> R st1 st2 \<and> (\<forall>y\<in>set [0..<H]. (y < H \<and> Qy y st2))"
    unfolding st2_def
  proof (rule fold_inv_post[where I = "lifo_inv W H near {}" and R = R and Q = "\<lambda>y s. y < H \<and> Qy y s"])
    show "lifo_inv W H near {} st1" using l1 by simp
    show "lifo_inv W H near {} (g y s) \<and> R s (g y s) \<and> y < H \<and> Qy y (g y s)"
      if "y \<in> set [0..<H]" "lifo_inv W H near {} s" for y s
      using stepy[OF that refl] that(1) by simp
    show "y < H \<and> Qy y b" if "y < H \<and> Qy y a" "R a b" for y a b
      using staby[of y a b] that by simp
  qed (rule rr, rule rt)
  have qx: "\<forall>x<W. Qx x st2"
  proof (intro allI impI)
    fix x assume "x < W"
    then show "Qx x st2" using l1 l2 stabx[of x st1 st2] by simp
  qed
  have qy: "\<forall>y<H. Qy y st2" using l2 by auto
  have "\<forall>x<W. \<forall>y<H. onBorder W H x y \<longrightarrow> near (y * W + x) \<longrightarrow> fst st2 ! (y * W + x)"
  proof (intro allI impI)
    fix x y assume x: "x < W" and y: "y < H" and b: "onBorder W H x y" and n: "near (y * W + x)"
    from b consider "x = 0" | "y = 0" | "x = W - 1" | "y = H - 1" unfolding onBorder_def by fastforce
    then show "fst st2 ! (y * W + x)"
    proof cases
      case 1 then show ?thesis using qy y n by (simp add: Qy_def)
    next
      case 2 then show ?thesis using qx x n by (simp add: Qx_def)
    next
      case 3 then show ?thesis using qy y n by (simp add: Qy_def)
    next
      case 4 then show ?thesis using qx x n by (simp add: Qx_def)
    qed
  qed
  moreover have "grows W H (fst st0) (fst st2)" using l1 l2 grows_trans unfolding R_def by blast
  ultimately show ?thesis using l2 unfolding sb by simp
qed

lemma floodFill_reach:
  assumes W: "0 < W" and H: "0 < H"
  shows "\<exists>bg. floodFill W H near = Some bg \<and> length bg = W * H
           \<and> (\<forall>x<W. \<forall>y<H. bg ! (y * W + x) = reach W H near x y)"
proof -
  let ?s0 = "(replicate (W * H) False, []) :: fill"
  have i0: "lifo_inv W H near {} ?s0" by (simp add: lifo_inv_def fill_inv_def)
  note sd = seedBorder_inv[OF W H i0]
  obtain bg where d: "drain W H near (seedBorder W H near ?s0) = Some bg"
    and f: "fill_inv W H near {} bg {}" and g: "grows W H (fst (seedBorder W H near ?s0)) bg"
    using drain_total[of W H near "seedBorder W H near ?s0"] sd by blast
  have seeds: "\<And>x y. x < W \<Longrightarrow> y < H \<Longrightarrow> onBorder W H x y \<Longrightarrow> near (y * W + x) \<Longrightarrow> bg ! (y * W + x)"
    using sd g idx_lt unfolding grows_def by blast
  have "bg ! (y * W + x) = reach W H near x y" if "x < W" "y < H" for x y
  proof
    assume "bg ! (y * W + x)"
    then have "reachI W H near (y * W + x)" using f that idx_lt[OF that] unfolding fill_inv_def by blast
    then show "reach W H near x y" using that by (simp add: reachI_def)
  next
    assume "reach W H near x y"
    then show "bg ! (y * W + x)" using closed_reach seeds f by blast
  qed
  moreover have "length bg = W * H" using f by (simp add: fill_inv_def)
  ultimately show ?thesis using d by (simp add: floodFill_def)
qed

subsubsection \<open>The fill with a queue\<close>

lemma pushIf_web_in:
  assumes inv: "fifo_inv W H near P h st" and j: "j < W * H"
    and r: "near j \<Longrightarrow> reachI W H near j"
  shows "fifo_inv W H near P h (pushIf_web near j st)
       \<and> grows W H (fst st) (fst (pushIf_web near j st))
       \<and> wfill_measure h (pushIf_web near j st) \<le> wfill_measure h st
       \<and> (near j \<longrightarrow> fst (pushIf_web near j st) ! j)"
proof -
  obtain bg q where st: "st = (bg, q)" by (cases st)
  have len: "length bg = W * H" and h: "h \<le> length q"
    using inv by (simp_all add: fifo_inv_def fill_inv_def st)
  show ?thesis
  proof (cases "bg ! j \<or> \<not> near j")
    case True
    then have "pushIf_web near j st = st"
      using j len by (auto simp: pushIf_web_def st mget_def)
    then show ?thesis using inv True by (auto simp: grows_def st)
  next
    case False
    then have eq: "pushIf_web near j st = (bg[j := True], q @ [j])"
      using j len by (auto simp: pushIf_web_def st mget_def)
    have "fill_inv W H near P (bg[j := True]) (insert j (set (drop h q)))"
      using inv j r False by (intro fill_inv_mark) (simp_all add: fifo_inv_def st)
    then have i1: "fifo_inv W H near P h (bg[j := True], q @ [j])"
      using h by (simp add: fifo_inv_def)
    have m: "Suc (unmarked (bg[j := True])) = unmarked bg"
      using False j len by (intro unmarked_update) simp_all
    show ?thesis unfolding eq using i1 m j len h
      by (auto simp: grows_def st wfill_measure_def nth_list_update)
  qed
qed

lemma pushIf_web_if:
  assumes inv: "fifo_inv W H near P h st"
    and c: "c \<Longrightarrow> j < W * H \<and> (near j \<longrightarrow> reachI W H near j)"
  shows "fifo_inv W H near P h (if c then pushIf_web near j st else st)
       \<and> grows W H (fst st) (fst (if c then pushIf_web near j st else st))
       \<and> wfill_measure h (if c then pushIf_web near j st else st) \<le> wfill_measure h st
       \<and> (c \<longrightarrow> near j \<longrightarrow> fst (if c then pushIf_web near j st else st) ! j)"
proof (cases c)
  case True
  then show ?thesis using pushIf_web_in[OF inv, of j] c by simp
next
  case False
  then show ?thesis using inv by (simp add: grows_refl)
qed

lemma nbr_left: assumes "i < W * H" "0 < i mod W" shows "i - 1 < W * H \<and> adjI W i (i - 1)"
proof -
  have e: "i - 1 = i div W * W + (i mod W - 1)"
    using div_mult_mod_eq[of i W] assms(2) by linarith
  have w: "i mod W - 1 < W" using assms mod_lt[of i W H] by simp
  have "(i - 1) mod W = i mod W - 1" "(i - 1) div W = i div W"
    unfolding e using w by (simp_all only: idx_mod idx_div)
  then show ?thesis using assms by (simp add: adjI_def adj4_def)
qed

lemma nbr_right: assumes "i < W * H" "i mod W < W - 1" shows "i + 1 < W * H \<and> adjI W i (i + 1)"
proof -
  have e: "i + 1 = i div W * W + (i mod W + 1)"
    using div_mult_mod_eq[of i W] by linarith
  have w: "i mod W + 1 < W" using assms by simp
  have m: "(i + 1) mod W = i mod W + 1" "(i + 1) div W = i div W"
    unfolding e using w by (simp_all only: idx_mod idx_div)
  have "i div W * W + (i mod W + 1) < W * H" using w div_lt[OF assms(1)] by (rule idx_lt)
  then have "i + 1 < W * H" using e by simp
  then show ?thesis using m by (simp add: adjI_def adj4_def)
qed

lemma nbr_up: assumes "i < W * H" "0 < i div W" shows "i - W < W * H \<and> adjI W i (i - W)"
proof -
  have W: "0 < W" using assms(1) by (cases W) auto
  have ge: "W \<le> i" using assms(2) W by (simp add: div_greater_zero_iff)
  have "(i - W) mod W = i mod W" using ge by (simp add: le_mod_geq)
  moreover have "i div W = Suc ((i - W) div W)" using ge W by (simp add: le_div_geq)
  ultimately show ?thesis using assms by (simp add: adjI_def adj4_def)
qed

lemma nbr_down: assumes "i < W * H" "i div W < H - 1" shows "i + W < W * H \<and> adjI W i (i + W)"
proof -
  have W: "0 < W" using assms(1) by (cases W) auto
  have m: "(i + W) mod W = i mod W" "(i + W) div W = i div W + 1" using W by simp_all
  have "(i div W + 1) * W + i mod W < W * H"
    using mod_lt[OF assms(1)] assms(2) by (intro idx_lt) simp_all
  moreover have "(i div W + 1) * W + i mod W = i + W"
    using div_mult_mod_eq[of i W] by (simp add: add_mult_distrib)
  ultimately have "i + W < W * H" by simp
  then show ?thesis using m by (simp add: adjI_def adj4_def)
qed

lemma nbr_cases:
  assumes i: "i < W * H" and j: "j < W * H" and a: "adjI W i j"
  shows "(0 < i mod W \<and> j = i - 1) \<or> (i mod W < W - 1 \<and> j = i + 1)
       \<or> (0 < i div W \<and> j = i - W) \<or> (i div W < H - 1 \<and> j = i + W)"
proof -
  note ei = div_mult_mod_eq[of i W] and ej = div_mult_mod_eq[of j W]
  have jm: "j mod W < W" and jd: "j div W < H" using j by (simp_all add: mod_lt div_lt)
  from a consider
      "j div W = i div W" "j mod W = i mod W + 1"
    | "j div W = i div W" "j mod W + 1 = i mod W"
    | "j mod W = i mod W" "j div W = i div W + 1"
    | "j mod W = i mod W" "j div W + 1 = i div W"
    unfolding adjI_def adj4_def by blast
  then show ?thesis
  proof cases
    case 1
    have ej': "i div W * W + j mod W = j" using ej by (simp only: 1(1))
    have "j = i + 1" using ei ej' 1(2) by linarith
    moreover have "i mod W < W - 1" using 1(2) jm by linarith
    ultimately show ?thesis by blast
  next
    case 2
    have ej': "i div W * W + j mod W = j" using ej by (simp only: 2(1))
    have "i = j + 1" using ei ej' 2(2) by linarith
    then have "j = i - 1" by simp
    moreover have "0 < i mod W" using 2(2) by linarith
    ultimately show ?thesis by blast
  next
    case 3
    have "j div W * W = i div W * W + W" by (simp only: 3(2)) (simp add: add_mult_distrib)
    then have "j = i + W" using ei ej 3(1) by linarith
    moreover have "i div W < H - 1" using 3(2) jd by linarith
    ultimately show ?thesis by blast
  next
    case 4
    have "i div W * W = j div W * W + W" by (simp only: 4(2)[symmetric]) (simp add: add_mult_distrib)
    then have "i = j + W" using ei ej 4(1) by linarith
    then have "j = i - W" by simp
    moreover have "0 < i div W" using 4(2) by linarith
    ultimately show ?thesis by blast
  qed
qed

lemma shiftStep_inv:
  assumes inv: "fifo_inv W H near {} h bq" and lt: "h < length (snd bq)"
  shows "fifo_inv W H near {} (Suc h) (fst (shiftStep W H near (bq, h)))
       \<and> snd (shiftStep W H near (bq, h)) = Suc h
       \<and> grows W H (fst bq) (fst (fst (shiftStep W H near (bq, h))))
       \<and> wfill_measure (Suc h) (fst (shiftStep W H near (bq, h))) < wfill_measure h bq"
proof -
  define i where "i = snd bq ! h"
  define s1 where "s1 = (if i mod W > 0 then pushIf_web near (i - 1) bq else bq)"
  define s2 where "s2 = (if i mod W < W - 1 then pushIf_web near (i + 1) s1 else s1)"
  define s3 where "s3 = (if i div W > 0 then pushIf_web near (i - W) s2 else s2)"
  define s4 where "s4 = (if i div W < H - 1 then pushIf_web near (i + W) s3 else s3)"
  have ss: "shiftStep W H near (bq, h) = (s4, Suc h)"
    by (simp add: shiftStep_def Let_def s4_def s3_def s2_def s1_def i_def)
  have dr: "set (drop h (snd bq)) = insert i (set (drop (Suc h) (snd bq)))"
    using lt by (simp add: i_def Cons_nth_drop_Suc[symmetric])
  have fi: "fill_inv W H near {} (fst bq) (insert i (set (drop (Suc h) (snd bq))))"
    using inv dr by (simp add: fifo_inv_def)
  have iW: "i < W * H" using fi unfolding fill_inv_def by blast
  have ri: "reachI W H near i" using fi iW unfolding fill_inv_def by blast
  have i0: "fifo_inv W H near {i} (Suc h) bq"
    using fill_inv_pop[OF fi] lt by (simp add: fifo_inv_def)
  have m0: "wfill_measure (Suc h) bq < wfill_measure h bq" using lt by (simp add: wfill_measure_def)
  have rr: "\<And>j. j < W * H \<and> adjI W i j \<Longrightarrow> j < W * H \<and> (near j \<longrightarrow> reachI W H near j)"
    using reachI_step[OF ri] by blast
  have p1: "fifo_inv W H near {i} (Suc h) s1 \<and> grows W H (fst bq) (fst s1)
       \<and> wfill_measure (Suc h) s1 \<le> wfill_measure (Suc h) bq
       \<and> (i mod W > 0 \<longrightarrow> near (i - 1) \<longrightarrow> fst s1 ! (i - 1))"
    unfolding s1_def by (rule pushIf_web_if[OF i0]) (rule rr, rule nbr_left[OF iW])
  have i1: "fifo_inv W H near {i} (Suc h) s1" using p1 by (elim conjE)
  have p2: "fifo_inv W H near {i} (Suc h) s2 \<and> grows W H (fst s1) (fst s2)
       \<and> wfill_measure (Suc h) s2 \<le> wfill_measure (Suc h) s1
       \<and> (i mod W < W - 1 \<longrightarrow> near (i + 1) \<longrightarrow> fst s2 ! (i + 1))"
    unfolding s2_def by (rule pushIf_web_if[OF i1]) (rule rr, rule nbr_right[OF iW])
  have i2: "fifo_inv W H near {i} (Suc h) s2" using p2 by (elim conjE)
  have p3: "fifo_inv W H near {i} (Suc h) s3 \<and> grows W H (fst s2) (fst s3)
       \<and> wfill_measure (Suc h) s3 \<le> wfill_measure (Suc h) s2
       \<and> (i div W > 0 \<longrightarrow> near (i - W) \<longrightarrow> fst s3 ! (i - W))"
    unfolding s3_def by (rule pushIf_web_if[OF i2]) (rule rr, rule nbr_up[OF iW])
  have i3: "fifo_inv W H near {i} (Suc h) s3" using p3 by (elim conjE)
  have p4: "fifo_inv W H near {i} (Suc h) s4 \<and> grows W H (fst s3) (fst s4)
       \<and> wfill_measure (Suc h) s4 \<le> wfill_measure (Suc h) s3
       \<and> (i div W < H - 1 \<longrightarrow> near (i + W) \<longrightarrow> fst s4 ! (i + W))"
    unfolding s4_def by (rule pushIf_web_if[OF i3]) (rule rr, rule nbr_down[OF iW])
  have i4: "fifo_inv W H near {i} (Suc h) s4" using p4 by (elim conjE)
  have g01: "grows W H (fst bq) (fst s1)" using p1 by (elim conjE)
  have g12: "grows W H (fst s1) (fst s2)" using p2 by (elim conjE)
  have g23: "grows W H (fst s2) (fst s3)" using p3 by (elim conjE)
  have g34: "grows W H (fst s3) (fst s4)" using p4 by (elim conjE)
  have g24: "grows W H (fst s2) (fst s4)" using g23 g34 by (rule grows_trans)
  have g14: "grows W H (fst s1) (fst s4)" using g12 g24 by (rule grows_trans)
  have g04: "grows W H (fst bq) (fst s4)" using g01 g14 by (rule grows_trans)
  have m1: "wfill_measure (Suc h) s1 \<le> wfill_measure (Suc h) bq" using p1 by (elim conjE)
  have m2: "wfill_measure (Suc h) s2 \<le> wfill_measure (Suc h) s1" using p2 by (elim conjE)
  have m3: "wfill_measure (Suc h) s3 \<le> wfill_measure (Suc h) s2" using p3 by (elim conjE)
  have m4: "wfill_measure (Suc h) s4 \<le> wfill_measure (Suc h) s3" using p4 by (elim conjE)
  have mm: "wfill_measure (Suc h) s4 < wfill_measure h bq" using m0 m1 m2 m3 m4 by linarith
  have cl: "\<forall>j<W * H. adjI W i j \<longrightarrow> near j \<longrightarrow> fst s4 ! j"
  proof (intro allI impI)
    fix j assume j: "j < W * H" and a: "adjI W i j" and n: "near j"
    from nbr_cases[OF iW j a] show "fst s4 ! j"
    proof (elim disjE conjE)
      assume "0 < i mod W" "j = i - 1"
      then have "fst s1 ! j" using p1 n by simp
      then show ?thesis using g14 j by (simp add: grows_def)
    next
      assume "i mod W < W - 1" "j = i + 1"
      then have "fst s2 ! j" using p2 n by simp
      then show ?thesis using g24 j by (simp add: grows_def)
    next
      assume "0 < i div W" "j = i - W"
      then have "fst s3 ! j" using p3 n by simp
      then show ?thesis using g34 j by (simp add: grows_def)
    next
      assume "i div W < H - 1" "j = i + W"
      then show ?thesis using p4 n by simp
    qed
  qed
  have "fill_inv W H near ({i} - {i}) (fst s4) (set (drop (Suc h) (snd s4)))"
    using i4 iW cl by (intro fill_inv_done) (simp_all add: fifo_inv_def)
  then have "fifo_inv W H near {} (Suc h) s4" using i4 by (simp add: fifo_inv_def)
  then show ?thesis using g04 mm unfolding ss by simp
qed

lemma drain_web_total:
  assumes "fifo_inv W H near {} h bq"
  shows "\<exists>bg'. drain_web W H near (bq, h) = Some bg' \<and> fill_inv W H near {} bg' {} \<and> grows W H (fst bq) bg'"
  using assms
proof (induction "wfill_measure h bq" arbitrary: h bq rule: less_induct)
  case less
  show ?case
  proof (cases "h < length (snd bq)")
    case False
    then have "drain_web W H near (bq, h) = Some (fst bq)" by (subst drain_web.simps) simp
    moreover have "fill_inv W H near {} (fst bq) {}" using less.prems False by (simp add: fifo_inv_def)
    ultimately show ?thesis by (simp add: grows_refl)
  next
    case True
    note ps = shiftStep_inv[OF less.prems True]
    define bq' where "bq' = fst (shiftStep W H near (bq, h))"
    have sh: "shiftStep W H near (bq, h) = (bq', Suc h)" using ps by (simp add: bq'_def prod_eq_iff)
    obtain bg' where d: "drain_web W H near (bq', Suc h) = Some bg'"
      and f: "fill_inv W H near {} bg' {}" and gr: "grows W H (fst bq') bg'"
      using less.hyps[of "Suc h" bq'] ps unfolding bq'_def by blast
    have "drain_web W H near (bq, h) = Some bg'" using d True sh by (subst drain_web.simps) simp
    moreover have "grows W H (fst bq) bg'" using ps gr grows_trans unfolding bq'_def by blast
    ultimately show ?thesis using f by simp
  qed
qed

lemma push_seed_web:
  assumes inv: "fifo_inv W H near {} 0 st" and x: "x < W" and y: "y < H" and b: "onBorder W H x y"
  shows "fifo_inv W H near {} 0 (pushIf_web near (y * W + x) st)
       \<and> grows W H (fst st) (fst (pushIf_web near (y * W + x) st))
       \<and> (near (y * W + x) \<longrightarrow> fst (pushIf_web near (y * W + x) st) ! (y * W + x))"
proof -
  have j: "y * W + x < W * H" using x y by (rule idx_lt)
  have r: "reachI W H near (y * W + x)" if "near (y * W + x)"
    using reach.seed[of x W y H near, OF x y b that] x by (simp add: reachI_def)
  show ?thesis using pushIf_web_in[OF inv j r] by blast
qed

lemma seedBorder_web_inv:
  assumes W: "0 < W" and H: "0 < H" and inv: "fifo_inv W H near {} 0 st0"
  shows "fifo_inv W H near {} 0 (seedBorder_web W H near st0)
       \<and> grows W H (fst st0) (fst (seedBorder_web W H near st0))
       \<and> (\<forall>x<W. \<forall>y<H. onBorder W H x y \<longrightarrow> near (y * W + x) \<longrightarrow> fst (seedBorder_web W H near st0) ! (y * W + x))"
proof -
  define f where "f = (\<lambda>x st. pushIf_web near ((H - 1) * W + x) (pushIf_web near x st))"
  define g where "g = (\<lambda>y st. pushIf_web near (y * W + (W - 1)) (pushIf_web near (y * W) st))"
  define st1 where "st1 = fold f [0..<W] st0"
  define st2 where "st2 = fold g [0..<H] st1"
  define Qx where "Qx = (\<lambda>x (s::wfill). (near x \<longrightarrow> fst s ! x) \<and> (near ((H - 1) * W + x) \<longrightarrow> fst s ! ((H - 1) * W + x)))"
  define Qy where "Qy = (\<lambda>y (s::wfill). (near (y * W) \<longrightarrow> fst s ! (y * W)) \<and> (near (y * W + (W - 1)) \<longrightarrow> fst s ! (y * W + (W - 1))))"
  define R where "R = (\<lambda>(a::wfill) (b::wfill). grows W H (fst a) (fst b))"
  have sb: "seedBorder_web W H near st0 = st2"
    by (simp add: seedBorder_web_def st2_def st1_def f_def g_def)
  have stepx: "fifo_inv W H near {} 0 (f x s) \<and> R s (f x s) \<and> Qx x (f x s)"
    if "x \<in> set [0..<W]" "fifo_inv W H near {} 0 s" for x s
  proof -
    have x: "x < W" using that by simp
    have a: "fifo_inv W H near {} 0 (pushIf_web near x s)
       \<and> grows W H (fst s) (fst (pushIf_web near x s))
       \<and> (near x \<longrightarrow> fst (pushIf_web near x s) ! x)"
      using push_seed_web[OF that(2) x H, of ] by (simp add: onBorder_def)
    have a': "fifo_inv W H near {} 0 (pushIf_web near x s)" using a by (elim conjE)
    have b: "fifo_inv W H near {} 0 (f x s)
       \<and> grows W H (fst (pushIf_web near x s)) (fst (f x s))
       \<and> (near ((H - 1) * W + x) \<longrightarrow> fst (f x s) ! ((H - 1) * W + x))"
      unfolding f_def using push_seed_web[OF a' x, of "H - 1"] H by (simp add: onBorder_def)
    have "x + 0 < W * H" using x H idx_lt[of x W 0 H] by simp
    then have "near x \<longrightarrow> fst (f x s) ! x" using a b by (auto simp: grows_def)
    moreover have "grows W H (fst s) (fst (f x s))" using a b grows_trans by blast
    ultimately show ?thesis using b unfolding R_def Qx_def by blast
  qed
  have stepy: "fifo_inv W H near {} 0 (g y s) \<and> R s (g y s) \<and> Qy y (g y s)"
    if "y \<in> set [0..<H]" "fifo_inv W H near {} 0 s" for y s
  proof -
    have y: "y < H" using that by simp
    have a: "fifo_inv W H near {} 0 (pushIf_web near (y * W) s)
       \<and> grows W H (fst s) (fst (pushIf_web near (y * W) s))
       \<and> (near (y * W) \<longrightarrow> fst (pushIf_web near (y * W) s) ! (y * W))"
      using push_seed_web[OF that(2) W y, of ] by (simp add: onBorder_def)
    have a': "fifo_inv W H near {} 0 (pushIf_web near (y * W) s)" using a by (elim conjE)
    have b: "fifo_inv W H near {} 0 (g y s)
       \<and> grows W H (fst (pushIf_web near (y * W) s)) (fst (g y s))
       \<and> (near (y * W + (W - 1)) \<longrightarrow> fst (g y s) ! (y * W + (W - 1)))"
      unfolding g_def using push_seed_web[OF a', of "W - 1" y] W y by (simp add: onBorder_def)
    have "y * W + 0 < W * H" using y W by (intro idx_lt) simp_all
    then have "near (y * W) \<longrightarrow> fst (g y s) ! (y * W)" using a b by (auto simp: grows_def)
    moreover have "grows W H (fst s) (fst (g y s))" using a b grows_trans by blast
    ultimately show ?thesis using b unfolding R_def Qy_def by blast
  qed
  have stabx: "Qx x b" if "Qx x a" "R a b" "x < W" for x a b
  proof -
    have "x + 0 < W * H" "(H - 1) * W + x < W * H" using that(3) H idx_lt[of x W 0 H] idx_lt[of x W "H - 1" H] by simp_all
    then show ?thesis using that unfolding Qx_def R_def grows_def by auto
  qed
  have staby: "Qy y b" if "Qy y a" "R a b" "y < H" for y a b
  proof -
    have "y * W + 0 < W * H" "y * W + (W - 1) < W * H" using that(3) W idx_lt[of 0 W y H] idx_lt[of "W - 1" W y H] by simp_all
    then show ?thesis using that unfolding Qy_def R_def grows_def by auto
  qed
  have rr: "\<And>s. R s s" by (simp add: R_def grows_refl)
  have rt: "\<And>a b c. R a b \<Longrightarrow> R b c \<Longrightarrow> R a c" unfolding R_def by (rule grows_trans)
  have l1: "fifo_inv W H near {} 0 st1 \<and> R st0 st1 \<and> (\<forall>x\<in>set [0..<W]. (x < W \<and> Qx x st1))"
    unfolding st1_def
  proof (rule fold_inv_post[where I = "fifo_inv W H near {} 0" and R = R and Q = "\<lambda>x s. x < W \<and> Qx x s"])
    show "fifo_inv W H near {} 0 st0" by (rule inv)
    show "fifo_inv W H near {} 0 (f x s) \<and> R s (f x s) \<and> x < W \<and> Qx x (f x s)"
      if "x \<in> set [0..<W]" "fifo_inv W H near {} 0 s" for x s
      using stepx[OF that] that(1) by simp
    show "x < W \<and> Qx x b" if "x < W \<and> Qx x a" "R a b" for x a b
      using stabx[of x a b] that by simp
  qed (rule rr, rule rt)
  have l2: "fifo_inv W H near {} 0 st2 \<and> R st1 st2 \<and> (\<forall>y\<in>set [0..<H]. (y < H \<and> Qy y st2))"
    unfolding st2_def
  proof (rule fold_inv_post[where I = "fifo_inv W H near {} 0" and R = R and Q = "\<lambda>y s. y < H \<and> Qy y s"])
    show "fifo_inv W H near {} 0 st1" using l1 by simp
    show "fifo_inv W H near {} 0 (g y s) \<and> R s (g y s) \<and> y < H \<and> Qy y (g y s)"
      if "y \<in> set [0..<H]" "fifo_inv W H near {} 0 s" for y s
      using stepy[OF that] that(1) by simp
    show "y < H \<and> Qy y b" if "y < H \<and> Qy y a" "R a b" for y a b
      using staby[of y a b] that by simp
  qed (rule rr, rule rt)
  have qx: "\<forall>x<W. Qx x st2"
  proof (intro allI impI)
    fix x assume "x < W"
    then show "Qx x st2" using l1 l2 stabx[of x st1 st2] by simp
  qed
  have qy: "\<forall>y<H. Qy y st2" using l2 by auto
  have "\<forall>x<W. \<forall>y<H. onBorder W H x y \<longrightarrow> near (y * W + x) \<longrightarrow> fst st2 ! (y * W + x)"
  proof (intro allI impI)
    fix x y assume x: "x < W" and y: "y < H" and b: "onBorder W H x y" and n: "near (y * W + x)"
    from b consider "x = 0" | "y = 0" | "x = W - 1" | "y = H - 1" unfolding onBorder_def by fastforce
    then show "fst st2 ! (y * W + x)"
    proof cases
      case 1 then show ?thesis using qy y n by (simp add: Qy_def)
    next
      case 2 then show ?thesis using qx x n by (simp add: Qx_def)
    next
      case 3 then show ?thesis using qy y n by (simp add: Qy_def)
    next
      case 4 then show ?thesis using qx x n by (simp add: Qx_def)
    qed
  qed
  moreover have "grows W H (fst st0) (fst st2)" using l1 l2 grows_trans unfolding R_def by blast
  ultimately show ?thesis using l2 unfolding sb by simp
qed

lemma mask_is_reach:
  assumes f: "fill_inv W H near {} bg {}"
    and seeds: "\<forall>x<W. \<forall>y<H. onBorder W H x y \<longrightarrow> near (y * W + x) \<longrightarrow> bg ! (y * W + x)"
  shows "length bg = W * H \<and> (\<forall>x<W. \<forall>y<H. bg ! (y * W + x) = reach W H near x y)"
proof -
  have "bg ! (y * W + x) = reach W H near x y" if "x < W" "y < H" for x y
  proof
    assume "bg ! (y * W + x)"
    then have "reachI W H near (y * W + x)" using f that idx_lt[OF that] unfolding fill_inv_def by blast
    then show "reach W H near x y" using that by (simp add: reachI_def)
  next
    assume "reach W H near x y"
    then show "bg ! (y * W + x)" using closed_reach[of W H near x y bg] seeds f by blast
  qed
  moreover have "length bg = W * H" using f by (simp add: fill_inv_def)
  ultimately show ?thesis by simp
qed

lemma floodFill_web_reach:
  assumes W: "0 < W" and H: "0 < H"
  shows "\<exists>bg. floodFill_web W H near = Some bg \<and> length bg = W * H
           \<and> (\<forall>x<W. \<forall>y<H. bg ! (y * W + x) = reach W H near x y)"
proof -
  let ?s0 = "(replicate (W * H) False, []) :: wfill"
  have i0: "fifo_inv W H near {} 0 ?s0" by (simp add: fifo_inv_def fill_inv_def)
  note sd = seedBorder_web_inv[OF W H i0]
  obtain bg where d: "drain_web W H near (seedBorder_web W H near ?s0, 0) = Some bg"
    and f: "fill_inv W H near {} bg {}" and g: "grows W H (fst (seedBorder_web W H near ?s0)) bg"
    using drain_web_total[of W H near 0 "seedBorder_web W H near ?s0"] sd by blast
  have seeds: "\<forall>x<W. \<forall>y<H. onBorder W H x y \<longrightarrow> near (y * W + x) \<longrightarrow> bg ! (y * W + x)"
    using sd g idx_lt unfolding grows_def by blast
  show ?thesis using mask_is_reach[OF f seeds] d by (simp add: floodFill_web_def)
qed

subsubsection \<open>Both fills find the border-connected pixels\<close>

lemma floodFill_same:
  assumes W: "0 < W" and H: "0 < H"
  shows "\<exists>bg. floodFill W H near = Some bg \<and> floodFill_web W H near = Some bg"
proof -
  obtain b1 where b1: "floodFill W H near = Some b1" "length b1 = W * H"
    "\<forall>x<W. \<forall>y<H. b1 ! (y * W + x) = reach W H near x y"
    using floodFill_reach[OF W H, of near] by blast
  obtain b2 where b2: "floodFill_web W H near = Some b2" "length b2 = W * H"
    "\<forall>x<W. \<forall>y<H. b2 ! (y * W + x) = reach W H near x y"
    using floodFill_web_reach[OF W H, of near] by blast
  have "b1 = b2"
  proof (rule nth_equalityI)
    show "length b1 = length b2" using b1 b2 by simp
    fix i assume "i < length b1"
    then have i: "i < W * H" using b1 by simp
    have "b1 ! (i div W * W + i mod W) = b2 ! (i div W * W + i mod W)"
      using b1(3) b2(3) mod_lt[OF i] div_lt[OF i] by blast
    then show "b1 ! i = b2 ! i" by simp
  qed
  then show ?thesis using b1 b2 by simp
qed

text \<open>
  Claim C10. The fill with a stack (batch script) and the fill with a queue (browser page)
  both return, and they return the same mask, for every grid and every test on the pixels.
\<close>

theorem stack_and_queue_fill_agree:
  assumes "0 < W" and "0 < H"
  shows "\<exists>bg. floodFill W H near = Some bg \<and> floodFill_web W H near = Some bg"
  using assms by (rule floodFill_same)

theorem stack_and_queue_fill_agree_witness:
  "\<exists>bg. floodFill 2 3 (\<lambda>i. i < 4) = Some bg \<and> floodFill_web 2 3 (\<lambda>i. i < 4) = Some bg"
  using stack_and_queue_fill_agree[of 2 3 "\<lambda>i. i < 4"] by simp

subsection \<open>Evaluating the near-background test\<close>

lemma sqrt_le_int:
  assumes "0 \<le> v"
  shows "sqrt (real_of_int v) \<le> real_of_int d \<longleftrightarrow> 0 \<le> d \<and> v \<le> d * d"
proof (cases "0 \<le> d")
  case True
  have "real_of_int d = sqrt (real_of_int d * real_of_int d)" using True by simp
  then have "sqrt (real_of_int v) \<le> real_of_int d
      \<longleftrightarrow> sqrt (real_of_int v) \<le> sqrt (real_of_int d * real_of_int d)"
    by simp
  also have "\<dots> \<longleftrightarrow> real_of_int v \<le> real_of_int d * real_of_int d" by (rule real_sqrt_le_iff)
  also have "\<dots> \<longleftrightarrow> v \<le> d * d" by (simp flip: of_int_mult)
  finally show ?thesis using True by simp
next
  case False
  have a: "0 \<le> sqrt (real_of_int v)" using assms by simp
  have b: "real_of_int d < 0" using False by simp
  show ?thesis using a b False by linarith
qed

lemma isNearBg_code [code]:
  "isNearBg segBg nearBgDist alphaBg r g b a =
     (int a \<le> alphaBg \<or>
      (case segBg of (s0, s1, s2) \<Rightarrow>
         0 \<le> nearBgDist \<and>
         (int s0 - int r) * (int s0 - int r) + (int s1 - int g) * (int s1 - int g)
           + (int s2 - int b) * (int s2 - int b) \<le> nearBgDist * nearBgDist))"
proof -
  obtain s0 s1 s2 where s: "segBg = (s0, s1, s2)" by (cases segBg) auto
  have nn: "0 \<le> (int s0 - int r) * (int s0 - int r) + (int s1 - int g) * (int s1 - int g)
           + (int s2 - int b) * (int s2 - int b)" by (simp add: add_nonneg_nonneg)
  show ?thesis unfolding isNearBg_def s Let_def prod.case sqrt_le_int[OF nn] by auto
qed

declare drain.simps [code] drain_web.simps [code]

subsection \<open>Grids and masks\<close>

lemma grid_Suc: "grid W (Suc H) f = grid W H f @ map (\<lambda>x. f x H) [0..<W]"
  by (simp add: grid_def)

lemma length_grid: "length (grid W H f) = W * H"
  by (induction H) (simp_all add: grid_Suc, simp add: grid_def)

lemma grid_nth: "i < W * H \<Longrightarrow> grid W H f ! i = f (i mod W) (i div W)"
proof (induction H)
  case 0
  then show ?case by simp
next
  case (Suc H)
  show ?case
  proof (cases "i < W * H")
    case True
    then show ?thesis using Suc.IH by (simp add: grid_Suc nth_append length_grid)
  next
    case False
    then have ge: "W * H \<le> i" by simp
    have lt: "i - W * H < W" using Suc.prems ge by simp
    have e: "i = H * W + (i - W * H)" using ge by (simp add: mult.commute)
    have m: "i mod W = i - W * H" by (subst e) (simp only: idx_mod[OF lt])
    have d: "i div W = H" by (subst e) (simp only: idx_div[OF lt])
    show ?thesis using False lt by (simp add: grid_Suc nth_append length_grid m d)
  qed
qed

lemma grid_nth_xy: "x < W \<Longrightarrow> y < H \<Longrightarrow> grid W H f ! (y * W + x) = f x y"
  using grid_nth[of "y * W + x" W H f] idx_lt[of x W y H] by simp

lemma mget_grid: "i < W * H \<Longrightarrow> mget (grid W H f) i = f (i mod W) (i div W)"
  by (simp add: mget_def length_grid grid_nth)

lemma markAll_Suc:
  "markAll near (Suc t) st =
     (let bc = markAll near t st in if near t then ((fst bc)[t := True], snd bc + 1) else bc)"
  by (simp add: markAll_def Let_def)

lemma markAll_char:
  "length (fst (markAll near t (bg, c))) = length bg
   \<and> (\<forall>i<length bg. fst (markAll near t (bg, c)) ! i = (bg ! i \<or> (i < t \<and> near i)))
   \<and> snd (markAll near t (bg, c)) = c + length (filter near [0..<t])"
proof (induction t)
  case 0
  then show ?case by (simp add: markAll_def)
next
  case (Suc t)
  define r where "r = markAll near t (bg, c)"
  note ih = Suc.IH[folded r_def]
  show ?case
  proof (cases "near t")
    case False
    then have "markAll near (Suc t) (bg, c) = r" by (simp add: markAll_Suc r_def)
    then show ?thesis using ih False by (auto simp: less_Suc_eq)
  next
    case True
    then have e: "markAll near (Suc t) (bg, c) = ((fst r)[t := True], snd r + 1)"
      by (simp add: markAll_Suc r_def Let_def)
    have "\<forall>i<length bg. (fst r)[t := True] ! i = (bg ! i \<or> (i < Suc t \<and> near i))"
    proof (intro allI impI)
      fix i assume i: "i < length bg"
      show "(fst r)[t := True] ! i = (bg ! i \<or> (i < Suc t \<and> near i))"
      proof (cases "i = t")
        case True
        then show ?thesis using i ih \<open>near t\<close> by simp
      next
        case False
        then show ?thesis using i ih by (auto simp: less_Suc_eq)
      qed
    qed
    then show ?thesis unfolding e using ih True by simp
  qed
qed

lemma count_zero_iff: "length (filter P [0..<n]) = 0 \<longleftrightarrow> (\<forall>i<n. \<not> P i)"
  by (auto simp: filter_empty_conv)

lemma segment_web_char:
  assumes ok: "image_ok img"
  shows "\<exists>bg1 bg n.
           floodFill_web (width img) (height img) (nearAt opt (pixels img)) = Some bg1
         \<and> segment_web img opt = Some (bg, n)
         \<and> length bg1 = width img * height img
         \<and> length bg = width img * height img
         \<and> (n = 0) = (\<forall>i<width img * height img. \<not> bg ! i)
         \<and> (if \<forall>i<width img * height img. \<not> bg1 ! i
             then \<forall>i<width img * height img. bg ! i = nearAt opt (pixels img) i
             else bg = bg1)"
proof -
  let ?W = "width img" and ?H = "height img" and ?near = "nearAt opt (pixels img)"
  let ?tot = "?W * ?H"
  have W: "0 < ?W" and H: "0 < ?H" using ok by (simp_all add: image_ok_def)
  obtain bg1 where f: "floodFill_web ?W ?H ?near = Some bg1" and l1: "length bg1 = ?tot"
    using floodFill_web_reach[OF W H, of ?near] by blast
  have mg: "\<And>i. i < ?tot \<Longrightarrow> mget bg1 i = bg1 ! i" using l1 by (simp add: mget_def)
  have cnt: "(length (filter (\<lambda>i. mget bg1 i) [0..<?tot]) = 0) = (\<forall>i<?tot. \<not> bg1 ! i)"
    using mg by (auto simp: filter_empty_conv)
  show ?thesis
  proof (cases "\<forall>i<?tot. \<not> bg1 ! i")
    case True
    then have c0: "length (filter (\<lambda>i. mget bg1 i) [0..<?tot]) = 0" using cnt by simp
    define r where "r = markAll ?near ?tot (bg1, 0)"
    have seg: "segment_web img opt = Some (fst r, snd r)"
      using f c0 by (simp add: segment_web_def Let_def r_def)
    note mc = markAll_char[of ?near ?tot bg1 0, folded r_def]
    have a: "length (fst r) = ?tot" using mc l1 by simp
    have b: "\<forall>i<?tot. fst r ! i = ?near i" using mc l1 True by simp
    have c: "(snd r = 0) = (\<forall>i<?tot. \<not> fst r ! i)" using mc b by (auto simp: filter_empty_conv)
    show ?thesis
      by (rule exI[of _ bg1], rule exI[of _ "fst r"], rule exI[of _ "snd r"])
        (use f seg l1 a b c True in simp)
  next
    case False
    then have c0: "length (filter (\<lambda>i. mget bg1 i) [0..<?tot]) \<noteq> 0" using cnt by simp
    have seg: "segment_web img opt = Some (bg1, length (filter (\<lambda>i. mget bg1 i) [0..<?tot]))"
      using f c0 by (simp add: segment_web_def Let_def)
    show ?thesis
      by (rule exI[of _ bg1], rule exI[of _ bg1],
          rule exI[of _ "length (filter (\<lambda>i. mget bg1 i) [0..<?tot])"])
        (use f seg l1 cnt False in auto)
  qed
qed

lemma mget_nth: "i < length m \<Longrightarrow> mget m i = m ! i"
  by (simp add: mget_def)

lemma cell_eq: "i div W * W + i mod W = (i::nat)" by simp

lemma band_web_char:
  assumes len: "length bg = width img * height img"
    and n: "(n = 0) = (\<forall>i<width img * height img. \<not> bg ! i)"
  shows "length (band_web img opt (bg, n)) = width img * height img
       \<and> (\<forall>i<width img * height img. band_web img opt (bg, n) ! i \<longrightarrow> \<not> bg ! i)
       \<and> (n = 0 \<longrightarrow> (\<forall>i<width img * height img.
              band_web img opt (bg, n) ! i =
                (int (i mod width img) \<le> max 0 (o_bandRadius opt)
                 \<or> int (i div width img) \<le> max 0 (o_bandRadius opt)
                 \<or> int (width img) - 1 - max 0 (o_bandRadius opt) \<le> int (i mod width img)
                 \<or> int (height img) - 1 - max 0 (o_bandRadius opt) \<le> int (i div width img))))"
proof (cases "n = 0")
  case True
  then show ?thesis using n by (simp add: band_web_def Let_def length_grid grid_nth)
next
  case False
  have "\<not> bg ! i" if "i < width img * height img" "band_web img opt (bg, n) ! i" for i
  proof -
    have "\<not> mget bg (i div width img * width img + i mod width img)"
      using that False by (simp add: band_web_def grid_nth)
    then show ?thesis using that(1) len by (simp add: mget_def)
  qed
  then show ?thesis using False by (simp add: band_web_def length_grid)
qed

lemma sampleMask_web_char:
  assumes lb: "length band = width img * height img"
  shows "length (sampleMask_web img opt bg band) = width img * height img
       \<and> (\<forall>i<width img * height img. sampleMask_web img opt bg band ! i =
             (if o_sampleMode opt = ''all'' then \<not> mget bg i
              else if o_sampleMode opt = ''stroke''
                then band ! i \<and> pixelLuminance (pixels img ! i) \<le> o_strokeLumaMax opt
              else band ! i))"
  using lb by (simp add: sampleMask_web_def Let_def mget_def)

lemma masks_web_char:
  assumes ok: "image_ok img"
  shows "\<exists>bg1 bg n.
           floodFill_web (width img) (height img) (nearAt opt (pixels img)) = Some bg1
         \<and> segment_web img opt = Some (bg, n)
         \<and> masks_web img opt
              = Some (bg, band_web img opt (bg, n), sampleMask_web img opt bg (band_web img opt (bg, n)))
         \<and> length bg1 = width img * height img
         \<and> length bg = width img * height img
         \<and> (n = 0) = (\<forall>i<width img * height img. \<not> bg ! i)
         \<and> (if \<forall>i<width img * height img. \<not> bg1 ! i
             then \<forall>i<width img * height img. bg ! i = nearAt opt (pixels img) i
             else bg = bg1)"
proof -
  obtain bg1 bg n where a:
    "floodFill_web (width img) (height img) (nearAt opt (pixels img)) = Some bg1"
    "segment_web img opt = Some (bg, n)"
    "length bg1 = width img * height img"
    "length bg = width img * height img"
    "(n = 0) = (\<forall>i<width img * height img. \<not> bg ! i)"
    "(if \<forall>i<width img * height img. \<not> bg1 ! i
             then \<forall>i<width img * height img. bg ! i = nearAt opt (pixels img) i
             else bg = bg1)"
    using segment_web_char[OF ok, of opt] by blast
  have "masks_web img opt
      = Some (bg, band_web img opt (bg, n), sampleMask_web img opt bg (band_web img opt (bg, n)))"
    using a(2) by (simp add: masks_web_def Let_def)
  then show ?thesis using a by blast
qed

lemma masks_web_subset:
  assumes ok: "image_ok img"
  shows "\<exists>bg band msk. masks_web img opt = Some (bg, band, msk)
         \<and> length bg = width img * height img
         \<and> length msk = width img * height img
         \<and> (\<forall>i<width img * height img.
               if o_sampleMode opt = ''all'' then msk ! i = (\<not> bg ! i) else msk ! i \<longrightarrow> \<not> bg ! i)"
proof -
  obtain bg1 bg n where a:
    "masks_web img opt
       = Some (bg, band_web img opt (bg, n), sampleMask_web img opt bg (band_web img opt (bg, n)))"
    "length bg = width img * height img"
    "(n = 0) = (\<forall>i<width img * height img. \<not> bg ! i)"
    using masks_web_char[OF ok, of opt] by blast
  note b = band_web_char[OF a(2,3), of opt]
  have lb: "length (band_web img opt (bg, n)) = width img * height img" using b by simp
  note s = sampleMask_web_char[OF lb, of opt bg]
  show ?thesis
    by (rule exI[of _ bg], rule exI[of _ "band_web img opt (bg, n)"],
        rule exI[of _ "sampleMask_web img opt bg (band_web img opt (bg, n))"])
      (use a b s in \<open>auto simp: mget_def\<close>)
qed

lemma masks_batch_subset:
  assumes ok: "image_ok img"
  shows "\<exists>bg fg band. masks_batch img opt = Some (bg, fg, band)
         \<and> length bg = width img * height img
         \<and> length band = width img * height img
         \<and> (\<forall>i<width img * height img. fg ! i = (\<not> bg ! i))
         \<and> (\<forall>i<width img * height img. band ! i \<longrightarrow> \<not> bg ! i)"
proof -
  let ?W = "width img" and ?H = "height img" and ?near = "nearAt opt (pixels img)"
  have W: "0 < ?W" and H: "0 < ?H" using ok by (simp_all add: image_ok_def)
  obtain bg where f: "floodFill ?W ?H ?near = Some bg" and l: "length bg = ?W * ?H"
    using floodFill_reach[OF W H, of ?near] by blast
  define fg where "fg = fgMask ?W ?H bg"
  define band where "band = bandMask ?W ?H bg fg (o_bandRadius opt)"
  have m: "masks_batch img opt = Some (bg, fg, band)"
    using f by (simp add: masks_batch_def Let_def fg_def band_def)
  have fgn: "fg ! i = (\<not> bg ! i)" if "i < ?W * ?H" for i
    using that l by (simp add: fg_def fgMask_def grid_nth mget_def)
  have fgl: "length fg = ?W * ?H" by (simp add: fg_def fgMask_def length_grid)
  have bn: "\<not> bg ! i" if "i < ?W * ?H" "band ! i" for i
  proof -
    have "mget fg (i div ?W * ?W + i mod ?W)" using that by (simp add: band_def bandMask_def grid_nth)
    then show ?thesis using that(1) fgn fgl by (simp add: mget_def)
  qed
  have bl: "length band = ?W * ?H" by (simp add: band_def bandMask_def length_grid)
  show ?thesis using m l bl fgn bn by blast
qed

text \<open>The batch script has no second or third tier: when its fill marks no pixel, its band
  is empty.\<close>

lemma nearMask_empty:
  assumes "\<forall>i. \<not> mget bg i"
  shows "nearMask W H bg radius x y = False"
  using assms by (simp add: nearMask_def Let_def list_ex_iff)

lemma masks_batch_no_fallback:
  assumes ok: "image_ok img"
  shows "\<exists>bg fg band. masks_batch img opt = Some (bg, fg, band)
       \<and> floodFill (width img) (height img) (nearAt opt (pixels img)) = Some bg
       \<and> ((\<forall>i<width img * height img. \<not> bg ! i) \<longrightarrow> (\<forall>i<width img * height img. \<not> band ! i))"
proof -
  let ?W = "width img" and ?H = "height img" and ?near = "nearAt opt (pixels img)"
  have W: "0 < ?W" and H: "0 < ?H" using ok by (simp_all add: image_ok_def)
  obtain bg where f: "floodFill ?W ?H ?near = Some bg" and l: "length bg = ?W * ?H"
    using floodFill_reach[OF W H, of ?near] by blast
  define fg where "fg = fgMask ?W ?H bg"
  define band where "band = bandMask ?W ?H bg fg (o_bandRadius opt)"
  have m: "masks_batch img opt = Some (bg, fg, band)"
    using f by (simp add: masks_batch_def Let_def fg_def band_def)
  have "\<not> band ! i" if e: "\<forall>i<?W * ?H. \<not> bg ! i" and i: "i < ?W * ?H" for i
  proof -
    have "\<forall>i. \<not> mget bg i" using e l by (simp add: mget_def)
    then show ?thesis using i by (simp add: band_def bandMask_def grid_nth nearMask_empty)
  qed
  then show ?thesis using m f by blast
qed

lemma fallback_tiers:
  assumes ok: "image_ok img"
  shows "\<exists>bg1 bg band msk.
           floodFill_web (width img) (height img) (nearAt opt (pixels img)) = Some bg1
         \<and> masks_web img opt = Some (bg, band, msk)
         \<and> ((\<forall>i<width img * height img. \<not> bg1 ! i)
              \<longrightarrow> (\<forall>i<width img * height img. bg ! i = nearAt opt (pixels img) i))
         \<and> ((\<forall>i<width img * height img. \<not> nearAt opt (pixels img) i)
              \<longrightarrow> (\<forall>i<width img * height img. \<not> bg ! i)
                \<and> (\<forall>x<width img. \<forall>y<height img.
                      band ! (y * width img + x) =
                        (int x \<le> max 0 (o_bandRadius opt)
                         \<or> int y \<le> max 0 (o_bandRadius opt)
                         \<or> int (width img) - 1 - max 0 (o_bandRadius opt) \<le> int x
                         \<or> int (height img) - 1 - max 0 (o_bandRadius opt) \<le> int y))
                \<and> (\<forall>i<width img * height img.
                      msk ! i =
                        (if o_sampleMode opt = ''all'' then True
                         else if o_sampleMode opt = ''stroke''
                           then band ! i \<and> pixelLuminance (pixels img ! i) \<le> o_strokeLumaMax opt
                         else band ! i)))"
proof -
  let ?W = "width img" and ?H = "height img" and ?near = "nearAt opt (pixels img)"
  let ?tot = "?W * ?H"
  obtain bg1 bg n where a:
    "floodFill_web ?W ?H ?near = Some bg1"
    "masks_web img opt
       = Some (bg, band_web img opt (bg, n), sampleMask_web img opt bg (band_web img opt (bg, n)))"
    "length bg1 = ?tot" "length bg = ?tot"
    "(n = 0) = (\<forall>i<?tot. \<not> bg ! i)"
    "(if \<forall>i<?tot. \<not> bg1 ! i then \<forall>i<?tot. bg ! i = ?near i else bg = bg1)"
    using masks_web_char[OF ok, of opt] by blast
  define band where "band = band_web img opt (bg, n)"
  define msk where "msk = sampleMask_web img opt bg band"
  note b = band_web_char[OF a(4,5), of opt, folded band_def]
  have lb: "length band = ?tot" using b by simp
  note s = sampleMask_web_char[OF lb, of opt bg, folded msk_def]
  have W: "0 < ?W" and H: "0 < ?H" using ok by (simp_all add: image_ok_def)
  obtain bgr where r: "floodFill_web ?W ?H ?near = Some bgr"
    "\<forall>x<?W. \<forall>y<?H. bgr ! (y * ?W + x) = reach ?W ?H ?near x y"
    using floodFill_web_reach[OF W H, of ?near] by blast
  have t2: "\<forall>i<?tot. bg ! i = ?near i" if "\<forall>i<?tot. \<not> bg1 ! i" using a(6) that by simp
  have unmarked1: "\<forall>i<?tot. \<not> bg1 ! i" if nn: "\<forall>i<?tot. \<not> ?near i"
  proof (intro allI impI)
    fix i assume i: "i < ?tot"
    have eq: "bgr = bg1" using r(1) a(1) by simp
    have "bgr ! (i div ?W * ?W + i mod ?W) = reach ?W ?H ?near (i mod ?W) (i div ?W)"
      using r(2) mod_lt[OF i] div_lt[OF i] by blast
    then have "bg1 ! i = reach ?W ?H ?near (i mod ?W) (i div ?W)" using eq by simp
    moreover have "\<not> reach ?W ?H ?near (i mod ?W) (i div ?W)"
      using reach_near[of ?W ?H ?near "i mod ?W" "i div ?W"] nn i by auto
    ultimately show "\<not> bg1 ! i" by simp
  qed
  have t3: "(\<forall>i<?tot. \<not> bg ! i)
        \<and> (\<forall>x<?W. \<forall>y<?H. band ! (y * ?W + x) =
              (int x \<le> max 0 (o_bandRadius opt) \<or> int y \<le> max 0 (o_bandRadius opt)
               \<or> int ?W - 1 - max 0 (o_bandRadius opt) \<le> int x
               \<or> int ?H - 1 - max 0 (o_bandRadius opt) \<le> int y))
        \<and> (\<forall>i<?tot. msk ! i =
              (if o_sampleMode opt = ''all'' then True
               else if o_sampleMode opt = ''stroke''
                 then band ! i \<and> pixelLuminance (pixels img ! i) \<le> o_strokeLumaMax opt
               else band ! i))"
    if nn: "\<forall>i<?tot. \<not> ?near i"
  proof -
    have e: "\<forall>i<?tot. \<not> bg ! i" using t2[OF unmarked1[OF nn]] nn by simp
    then have n0: "n = 0" using a(5) by simp
    have bd: "band ! (y * ?W + x) =
              (int x \<le> max 0 (o_bandRadius opt) \<or> int y \<le> max 0 (o_bandRadius opt)
               \<or> int ?W - 1 - max 0 (o_bandRadius opt) \<le> int x
               \<or> int ?H - 1 - max 0 (o_bandRadius opt) \<le> int y)" if "x < ?W" "y < ?H" for x y
      using b n0 idx_lt[OF that] that(1) by simp
    have ms: "msk ! i =
              (if o_sampleMode opt = ''all'' then True
               else if o_sampleMode opt = ''stroke''
                 then band ! i \<and> pixelLuminance (pixels img ! i) \<le> o_strokeLumaMax opt
               else band ! i)" if "i < ?tot" for i
      using s e that a(4) by (simp add: mget_def)
    show ?thesis using e bd ms by blast
  qed
  show ?thesis
    by (rule exI[of _ bg1], rule exI[of _ bg], rule exI[of _ band], rule exI[of _ msk])
      (use a(1,2) t2 t3 in \<open>simp add: band_def msk_def\<close>)
qed

text \<open>
  Claim C6. On a decoded image both call sites return their masks; the band of the batch
  script lies in the complement of its background mask; the sample mask of the browser page
  is the complement of the background mask in the mode \<^verbatim>\<open>all\<close> and lies in that complement in
  every other mode (\<^verbatim>\<open>stroke\<close>, and the band for any other value).
\<close>

theorem sample_mask_within_foreground:
  assumes "image_ok img"
  shows "(\<exists>bg fg band. masks_batch img opt = Some (bg, fg, band)
            \<and> length bg = width img * height img
            \<and> length band = width img * height img
            \<and> (\<forall>i<width img * height img. fg ! i = (\<not> bg ! i))
            \<and> (\<forall>i<width img * height img. band ! i \<longrightarrow> \<not> bg ! i))
       \<and> (\<exists>bg band msk. masks_web img opt = Some (bg, band, msk)
            \<and> length bg = width img * height img
            \<and> length msk = width img * height img
            \<and> (\<forall>i<width img * height img.
                  if o_sampleMode opt = ''all'' then msk ! i = (\<not> bg ! i)
                  else msk ! i \<longrightarrow> \<not> bg ! i))"
  using masks_batch_subset[OF assms, of opt] masks_web_subset[OF assms, of opt] by (rule conjI)

lemma faintDot_ok: "image_ok faintDot"
  by (simp add: image_ok_def faintDot_def length_grid)

theorem sample_mask_within_foreground_witness:
  "image_ok faintDot
   \<and> (\<exists>bg fg band. masks_batch faintDot default_opts = Some (bg, fg, band)
            \<and> length bg = width faintDot * height faintDot
            \<and> length band = width faintDot * height faintDot
            \<and> (\<forall>i<width faintDot * height faintDot. fg ! i = (\<not> bg ! i))
            \<and> (\<forall>i<width faintDot * height faintDot. band ! i \<longrightarrow> \<not> bg ! i))
   \<and> (\<exists>bg band msk. masks_web faintDot default_opts = Some (bg, band, msk)
            \<and> length bg = width faintDot * height faintDot
            \<and> length msk = width faintDot * height faintDot
            \<and> (\<forall>i<width faintDot * height faintDot.
                  if o_sampleMode default_opts = ''all'' then msk ! i = (\<not> bg ! i)
                  else msk ! i \<longrightarrow> \<not> bg ! i))"
  using faintDot_ok sample_mask_within_foreground[OF faintDot_ok, of default_opts] by (rule conjI)

text \<open>
  Claim C2. On a decoded image the border-seeded fill of either call site returns, and a
  pixel of the grid is in the mask it returns exactly when a 4-connected path of pixels that
  pass the near-background test leads to it from a border pixel. A pixel that no such path
  reaches, whatever its colour, is therefore not in the mask. That mask is the background
  mask of the batch script, and the background mask of the browser page whenever the fill
  marks a pixel.
\<close>

theorem background_mask_is_border_reachable:
  assumes "image_ok img"
  shows "\<exists>bgB fg band bgW bg n.
           floodFill (width img) (height img) (nearAt opt (pixels img)) = Some bgB
         \<and> masks_batch img opt = Some (bgB, fg, band)
         \<and> floodFill_web (width img) (height img) (nearAt opt (pixels img)) = Some bgW
         \<and> segment_web img opt = Some (bg, n)
         \<and> ((\<exists>i<width img * height img. bgW ! i) \<longrightarrow> bg = bgW)
         \<and> length bgB = width img * height img
         \<and> length bgW = width img * height img
         \<and> (\<forall>x<width img. \<forall>y<height img.
               bgB ! (y * width img + x)
                 = reach (width img) (height img) (nearAt opt (pixels img)) x y
             \<and> bgW ! (y * width img + x)
                 = reach (width img) (height img) (nearAt opt (pixels img)) x y)"
proof -
  let ?W = "width img" and ?H = "height img" and ?near = "nearAt opt (pixels img)"
  have W: "0 < ?W" and H: "0 < ?H" using assms by (simp_all add: image_ok_def)
  obtain bgB where b: "floodFill ?W ?H ?near = Some bgB" "length bgB = ?W * ?H"
    "\<forall>x<?W. \<forall>y<?H. bgB ! (y * ?W + x) = reach ?W ?H ?near x y"
    using floodFill_reach[OF W H, of ?near] by blast
  obtain bgW where w: "floodFill_web ?W ?H ?near = Some bgW" "length bgW = ?W * ?H"
    "\<forall>x<?W. \<forall>y<?H. bgW ! (y * ?W + x) = reach ?W ?H ?near x y"
    using floodFill_web_reach[OF W H, of ?near] by blast
  obtain bg' fg band where m: "masks_batch img opt = Some (bg', fg, band)"
    "floodFill ?W ?H ?near = Some bg'"
    using masks_batch_no_fallback[OF assms, of opt] by blast
  have m': "masks_batch img opt = Some (bgB, fg, band)" using m b(1) by simp
  obtain bg1 bg n where s: "floodFill_web ?W ?H ?near = Some bg1" "segment_web img opt = Some (bg, n)"
    "(if \<forall>i<?W * ?H. \<not> bg1 ! i then \<forall>i<?W * ?H. bg ! i = ?near i else bg = bg1)"
    using segment_web_char[OF assms, of opt] by blast
  have e: "bg1 = bgW" using s(1) w(1) by simp
  have t: "(\<exists>i<?W * ?H. bgW ! i) \<longrightarrow> bg = bgW" using s(3) e by auto
  have r: "\<forall>x<?W. \<forall>y<?H. bgB ! (y * ?W + x) = reach ?W ?H ?near x y
             \<and> bgW ! (y * ?W + x) = reach ?W ?H ?near x y"
    using b(3) w(3) by simp
  show ?thesis
    by (rule exI[of _ bgB], rule exI[of _ fg], rule exI[of _ band], rule exI[of _ bgW],
        rule exI[of _ bg], rule exI[of _ n])
      (intro conjI, rule b(1), rule m', rule w(1), rule s(2), rule t, rule b(2), rule w(2), rule r)
qed

theorem background_mask_is_border_reachable_witness:
  "image_ok faintDot
   \<and> (\<exists>bgB fg band bgW bg n.
           floodFill (width faintDot) (height faintDot) (nearAt default_opts (pixels faintDot)) = Some bgB
         \<and> masks_batch faintDot default_opts = Some (bgB, fg, band)
         \<and> floodFill_web (width faintDot) (height faintDot) (nearAt default_opts (pixels faintDot))
             = Some bgW
         \<and> segment_web faintDot default_opts = Some (bg, n)
         \<and> ((\<exists>i<width faintDot * height faintDot. bgW ! i) \<longrightarrow> bg = bgW)
         \<and> length bgB = width faintDot * height faintDot
         \<and> length bgW = width faintDot * height faintDot
         \<and> (\<forall>x<width faintDot. \<forall>y<height faintDot.
               bgB ! (y * width faintDot + x)
                 = reach (width faintDot) (height faintDot) (nearAt default_opts (pixels faintDot)) x y
             \<and> bgW ! (y * width faintDot + x)
                 = reach (width faintDot) (height faintDot) (nearAt default_opts (pixels faintDot)) x y))"
  using faintDot_ok background_mask_is_border_reachable[OF faintDot_ok, of default_opts]
  by (rule conjI)

text \<open>An enclosed pixel: the white centre of \<open>enclosedDot\<close> passes the test, but the black ring
  around it keeps the fill out.\<close>

lemma enclosed_pixel_stays_foreground:
  "nearAt default_opts (pixels enclosedDot) 12
   \<and> floodFill 5 5 (nearAt default_opts (pixels enclosedDot))
       = Some [True, True, True, True, True,
               True, False, False, False, True,
               True, False, False, False, True,
               True, False, False, False, True,
               True, True, True, True, True]
   \<and> floodFill_web 5 5 (nearAt default_opts (pixels enclosedDot))
       = floodFill 5 5 (nearAt default_opts (pixels enclosedDot))"
  by code_simp

subsection \<open>Fallback tiers\<close>

lemma solidBlack_near: "nearAt default_opts (pixels solidBlack) i = False"
  by (cases "i < 25") (simp_all add: nearAt_def solidBlack_def isNearBg_code default_opts_def)


lemma solidBlack_ok: "image_ok solidBlack"
  by (simp add: image_ok_def solidBlack_def)

text \<open>
  Claim C3, as the browser page has it. When the border-seeded fill marks no pixel, every
  pixel that passes the near-background test is marked (tier 2); when no pixel passes the
  test, the background mask is empty and the band is the frame of the pixels whose column or
  row is at most \<open>max 0 bandRadius\<close> away from the first or last one (tier 3). The sample
  mask is then that frame in the band mode, every pixel in the mode \<^verbatim>\<open>all\<close>, and the pixels
  of the frame with luminance at most \<^verbatim>\<open>strokeLumaMax\<close> in the mode \<^verbatim>\<open>stroke\<close>.
\<close>

theorem fallback_tiers_as_coded:
  assumes "image_ok img"
  shows "\<exists>bg1 bg band msk.
           floodFill_web (width img) (height img) (nearAt opt (pixels img)) = Some bg1
         \<and> masks_web img opt = Some (bg, band, msk)
         \<and> ((\<forall>i<width img * height img. \<not> bg1 ! i)
              \<longrightarrow> (\<forall>i<width img * height img. bg ! i = nearAt opt (pixels img) i))
         \<and> ((\<forall>i<width img * height img. \<not> nearAt opt (pixels img) i)
              \<longrightarrow> (\<forall>i<width img * height img. \<not> bg ! i)
                \<and> (\<forall>x<width img. \<forall>y<height img.
                      band ! (y * width img + x) =
                        (int x \<le> max 0 (o_bandRadius opt)
                         \<or> int y \<le> max 0 (o_bandRadius opt)
                         \<or> int (width img) - 1 - max 0 (o_bandRadius opt) \<le> int x
                         \<or> int (height img) - 1 - max 0 (o_bandRadius opt) \<le> int y))
                \<and> (\<forall>i<width img * height img.
                      msk ! i =
                        (if o_sampleMode opt = ''all'' then True
                         else if o_sampleMode opt = ''stroke''
                           then band ! i \<and> pixelLuminance (pixels img ! i) \<le> o_strokeLumaMax opt
                         else band ! i)))"
  using assms by (rule fallback_tiers)

theorem fallback_tiers_as_coded_witness:
  "image_ok solidBlack
   \<and> (\<exists>bg1 bg band msk.
           floodFill_web (width solidBlack) (height solidBlack)
             (nearAt default_opts (pixels solidBlack)) = Some bg1
         \<and> masks_web solidBlack default_opts = Some (bg, band, msk)
         \<and> ((\<forall>i<width solidBlack * height solidBlack. \<not> bg1 ! i)
              \<longrightarrow> (\<forall>i<width solidBlack * height solidBlack.
                     bg ! i = nearAt default_opts (pixels solidBlack) i))
         \<and> ((\<forall>i<width solidBlack * height solidBlack. \<not> nearAt default_opts (pixels solidBlack) i)
              \<longrightarrow> (\<forall>i<width solidBlack * height solidBlack. \<not> bg ! i)
                \<and> (\<forall>x<width solidBlack. \<forall>y<height solidBlack.
                      band ! (y * width solidBlack + x) =
                        (int x \<le> max 0 (o_bandRadius default_opts)
                         \<or> int y \<le> max 0 (o_bandRadius default_opts)
                         \<or> int (width solidBlack) - 1 - max 0 (o_bandRadius default_opts) \<le> int x
                         \<or> int (height solidBlack) - 1 - max 0 (o_bandRadius default_opts) \<le> int y))
                \<and> (\<forall>i<width solidBlack * height solidBlack.
                      msk ! i =
                        (if o_sampleMode default_opts = ''all'' then True
                         else if o_sampleMode default_opts = ''stroke''
                           then band ! i \<and> pixelLuminance (pixels solidBlack ! i)
                                             \<le> o_strokeLumaMax default_opts
                         else band ! i))))"
  using solidBlack_ok fallback_tiers_as_coded[OF solidBlack_ok, of default_opts] by (rule conjI)

text \<open>
  The claim as stated fails: on the black image with band radius 1 nothing passes the test,
  and in the mode \<^verbatim>\<open>all\<close> the sample mask holds every pixel, also the centre (index 12), which
  is not in the frame; in the band mode the sample mask is the frame.
\<close>

theorem fallback_band_counterexample:
  "masks_web solidBlack (default_opts\<lparr>o_bandRadius := 1, o_sampleMode := ''all''\<rparr>)
     = Some (replicate 25 False,
        [True, True, True, True, True,
         True, True, True, True, True,
         True, True, False, True, True,
         True, True, True, True, True,
         True, True, True, True, True],
        replicate 25 True)
   \<and> masks_web solidBlack (default_opts\<lparr>o_bandRadius := 1\<rparr>)
     = Some (replicate 25 False,
        [True, True, True, True, True,
         True, True, True, True, True,
         True, True, False, True, True,
         True, True, True, True, True,
         True, True, True, True, True],
        [True, True, True, True, True,
         True, True, True, True, True,
         True, True, False, True, True,
         True, True, True, True, True,
         True, True, True, True, True])"
  by code_simp

subsection \<open>The grey square\<close>

lemma gray_linear:
  "0.22 \<le> srgbToLinear (130 / 255) \<and> srgbToLinear (130 / 255) \<le> 0.226"
proof -
  define x :: real where "x = (130 / 255 + 0.055) / 1.055"
  define s where "s = x powr 2.4"
  have x0: "0 \<le> x" by (simp add: x_def)
  have s0: "0 \<le> s" by (simp add: s_def)
  have "s ^ 5 = s powr 5" using s0 by simp
  also have "\<dots> = x powr 12" unfolding s_def powr_powr by simp
  also have "\<dots> = x ^ 12" using x0 by simp
  finally have s5: "s ^ 5 = x ^ 12" .
  have lo: "(0.22::real) ^ 5 \<le> x ^ 12" unfolding x_def by (simp add: power_divide)
  have hi: "x ^ 12 \<le> (0.226::real) ^ 5" unfolding x_def by (simp add: power_divide)
  have "0.22 \<le> s" using lo s0 unfolding s5[symmetric] by (simp add: power_mono_iff)
  moreover have "s \<le> 0.226" using hi s0 unfolding s5[symmetric] by (simp add: power_mono_iff)
  moreover have "srgbToLinear (130 / 255) = s" by (simp add: srgbToLinear_def s_def x_def)
  ultimately show ?thesis by simp
qed

lemma gray_ratio:
  "3.8 \<le> contrastRatioPixelVsBg 130 130 130 255 (255, 255, 255)
   \<and> contrastRatioPixelVsBg 130 130 130 255 (255, 255, 255) \<le> 3.9"
proof -
  define s where "s = srgbToLinear (130 / 255)"
  have b: "0.22 \<le> s" "s \<le> 0.226" using gray_linear by (simp_all add: s_def)
  have Lp: "relLuminance 130 130 130 = s" by (simp add: relLuminance_def Let_def s_def algebra_simps)
  have Lb: "relLuminance 255 255 255 = 1" by (simp add: relLuminance_def Let_def srgbToLinear_1)
  have r: "contrastRatioPixelVsBg 130 130 130 255 (255, 255, 255) = 1.05 / (s + 0.05)"
    using composite_opaque[of 130 130 130 "(255, 255, 255)"] b
    by (simp add: contrastRatioPixelVsBg_def Let_def Lp Lb max_def min_def)
  have d: "0 < s + 0.05" using b by simp
  have "3.8 * (s + 0.05) \<le> 1.05" using b by simp
  then have "3.8 \<le> 1.05 / (s + 0.05)" using d by (simp add: le_divide_eq)
  moreover have "1.05 \<le> 3.9 * (s + 0.05)" using b by simp
  then have "1.05 / (s + 0.05) \<le> 3.9" using d by (simp add: divide_le_eq)
  ultimately show ?thesis unfolding r by simp
qed

lemma grid_coords: "grid W H (\<lambda>x y. (x, y)) = map (\<lambda>i. (i mod W, i div W)) [0..<W * H]"
  by (rule nth_equalityI) (simp_all add: length_grid grid_nth)

lemma scanCell_fst:
  "fst (scanCell W raw msk bgc xy acc) =
     fst acc @ (if mget msk (snd xy * W + fst xy)
                then [case raw ! (snd xy * W + fst xy) of Pixel r g b a \<Rightarrow>
                        contrastRatioPixelVsBg (unat r) (unat g) (unat b) (unat a) bgc]
                else [])"
proof -
  obtain x y where c: "xy = (x, y)" by (cases xy)
  obtain rs w wp where acc: "acc = (rs, w, wp)" by (cases acc)
  obtain r g b a where px: "raw ! (y * W + x) = Pixel r g b a" by (cases "raw ! (y * W + x)")
  show ?thesis by (simp add: c acc scanCell_def Let_def px)
qed

lemma scan_fold:
  "fst (fold (scanCell W raw msk bgc) cs acc) =
     fst acc @ map (\<lambda>xy. case raw ! (snd xy * W + fst xy) of Pixel r g b a \<Rightarrow>
                          contrastRatioPixelVsBg (unat r) (unat g) (unat b) (unat a) bgc)
                (filter (\<lambda>xy. mget msk (snd xy * W + fst xy)) cs)"
proof (induction cs arbitrary: acc)
  case Nil
  then show ?case by simp
next
  case (Cons c cs)
  show ?case by (simp add: Cons.IH scanCell_fst)
qed

lemma scanRatios_fst:
  "fst (scanRatios img msk bgc) =
     map (\<lambda>i. case pixels img ! i of Pixel r g b a \<Rightarrow>
                 contrastRatioPixelVsBg (unat r) (unat g) (unat b) (unat a) bgc)
       (filter (\<lambda>i. mget msk i) [0..<width img * height img])"
  by (simp add: scanRatios_def scan_fold grid_coords filter_map comp_def)

lemma collectRatios_stats:
  "c_stats (collectRatios img opt msk bgc)
     = statsForRatios (fst (scanRatios img msk bgc)) (o_p opt) (o_threshold opt)
   \<and> c_pass (collectRatios img opt msk bgc)
     = passByStats (statsForRatios (fst (scanRatios img msk bgc)) (o_p opt) (o_threshold opt))
         (o_threshold opt) (o_maxPctBelow opt)"
  by (cases "scanRatios img msk bgc") (simp add: collectRatios_def Let_def)

lemma greySquare_pixel:
  "i < 100 \<Longrightarrow> pixels greySquare ! i = (if centre i then Pixel 130 130 130 255 else Pixel 255 255 255 255)"
  by (simp add: greySquare_def grid_nth centre_def)

lemma greySquare_near:
  "nearAt default_opts (pixels greySquare) = (\<lambda>i. i < 100 \<and> \<not> centre i)"
proof
  fix i
  show "nearAt default_opts (pixels greySquare) i = (i < 100 \<and> \<not> centre i)"
  proof (cases "i < 100")
    case True
    then show ?thesis
      by (simp add: nearAt_def greySquare_pixel isNearBg_code default_opts_def)
        (simp add: greySquare_def length_grid)
  next
    case False
    then show ?thesis by (simp add: nearAt_def greySquare_def length_grid)
  qed
qed

lemma greySquare_fill:
  "floodFill 10 10 (\<lambda>i. i < 100 \<and> \<not> centre i) =
     Some (grid 10 10 (\<lambda>x y. \<not> (3 \<le> x \<and> x \<le> 6 \<and> 3 \<le> y \<and> y \<le> 6)))"
  by code_simp


lemma greySquare_band:
  "bandMask 10 10 (grid 10 10 (\<lambda>x y. \<not> (3 \<le> x \<and> x \<le> 6 \<and> 3 \<le> y \<and> y \<le> 6)))
     (grid 10 10 (\<lambda>x y. 3 \<le> x \<and> x \<le> 6 \<and> 3 \<le> y \<and> y \<le> 6)) 2
   = grid 10 10 (\<lambda>x y. 3 \<le> x \<and> x \<le> 6 \<and> 3 \<le> y \<and> y \<le> 6)"
  by code_simp

lemma greySquare_fg:
  "fgMask 10 10 (grid 10 10 (\<lambda>x y. \<not> (3 \<le> x \<and> x \<le> 6 \<and> 3 \<le> y \<and> y \<le> 6)))
   = grid 10 10 (\<lambda>x y. 3 \<le> x \<and> x \<le> 6 \<and> 3 \<le> y \<and> y \<le> 6)"
  by code_simp

lemma greySquare_masks:
  "masks_batch greySquare default_opts =
     Some (grid 10 10 (\<lambda>x y. \<not> (3 \<le> x \<and> x \<le> 6 \<and> 3 \<le> y \<and> y \<le> 6)),
           grid 10 10 (\<lambda>x y. 3 \<le> x \<and> x \<le> 6 \<and> 3 \<le> y \<and> y \<le> 6),
           grid 10 10 (\<lambda>x y. 3 \<le> x \<and> x \<le> 6 \<and> 3 \<le> y \<and> y \<le> 6))"
proof -
  have w: "width greySquare = 10" "height greySquare = 10" by (simp_all add: greySquare_def)
  have r: "o_bandRadius default_opts = 2" by (simp add: default_opts_def)
  show ?thesis
    unfolding masks_batch_def w r greySquare_near greySquare_fill
    by (simp only: option.case Let_def greySquare_fg greySquare_band)
qed

lemma greySquare_sampled:
  "filter (\<lambda>i. mget (grid 10 10 (\<lambda>x y. 3 \<le> x \<and> x \<le> 6 \<and> 3 \<le> y \<and> y \<le> 6)) i) [0..<100]
   = [33, 34, 35, 36, 43, 44, 45, 46, 53, 54, 55, 56, 63, 64, 65, 66]"
  by code_simp

lemma replicate_16: "replicate 16 v = [v, v, v, v, v, v, v, v, v, v, v, v, v, v, v, v]"
  by (simp add: numeral_eq_Suc)

lemma greySquare_ratios:
  "fst (scanRatios greySquare (grid 10 10 (\<lambda>x y. 3 \<le> x \<and> x \<le> 6 \<and> 3 \<le> y \<and> y \<le> 6)) (255, 255, 255))
   = replicate 16 (contrastRatioPixelVsBg 130 130 130 255 (255, 255, 255))"
proof -
  have w: "width greySquare * height greySquare = 100" by (simp add: greySquare_def)
  show ?thesis
    unfolding scanRatios_fst w greySquare_sampled replicate_16
    by (simp add: greySquare_pixel centre_def)
qed

lemma ipol_replicate:
  assumes "0 \<le> t" "t \<le> real (n - 1)" "0 < n"
  shows "ipol (replicate n r) t = r"
proof -
  have lo0: "0 \<le> \<lfloor>t\<rfloor>" using assms(1) by simp
  have hi1: "\<lceil>t\<rceil> \<le> int (n - 1)" using assms(2) by (simp add: ceiling_le_iff)
  have lohi: "\<lfloor>t\<rfloor> \<le> \<lceil>t\<rceil>" by (rule floor_le_ceiling)
  have i: "nat \<lfloor>t\<rfloor> < n" "nat \<lceil>t\<rceil> < n" using lo0 hi1 lohi assms(3) by linarith+
  show ?thesis using i by (simp add: ipol_def algebra_simps)
qed

lemma percentile_constant:
  assumes "0 < n" "n \<le> 2 ^ 53" "0 \<le> p" "p \<le> 1" "1 \<le> r"
  shows "\<exists>c. percentile (replicate n r) p = JNum c \<and> \<bar>c - r\<bar> \<le> r / 2 ^ 49"
proof -
  have ne: "replicate n r \<noteq> []" using assms(1) by simp
  have len: "length (replicate n r) \<le> 2 ^ 53" using assms(2) by simp
  have bd: "\<forall>x\<in>set (replicate n r). 0 \<le> x \<and> x \<le> r" using assms(5) by simp
  obtain c where c: "percentile (replicate n r) p = JNum c"
    "\<bar>c - ipol (replicate n r) (fl (real (length (replicate n r) - 1) * p))\<bar> \<le> r / 2 ^ 49"
    using percentile_near[OF ne len assms(3,4) bd assms(5)] by blast
  have "ipol (replicate n r) (fl (real (length (replicate n r) - 1) * p)) = r"
    using idx_range[OF ne len assms(3,4)] assms(1) by (intro ipol_replicate) simp_all
  then show ?thesis using c by auto
qed

lemma stats_constant:
  assumes "3 \<le> r"
  shows "\<exists>q m. statsForRatios (replicate 16 r) 0.05 3
                 = \<lparr>count = 16, smin = JNum r, pX = JNum q, median = JNum m, pctBelow = 0\<rparr>
               \<and> \<bar>q - r\<bar> \<le> r / 2 ^ 49 \<and> \<bar>m - r\<bar> \<le> r / 2 ^ 49"
proof -
  have s: "sort (replicate 16 r) = replicate 16 r" by (simp add: sorted_sort_id)
  have r1: "1 \<le> r" using assms by simp
  obtain q where q: "percentile (replicate 16 r) 0.05 = JNum q" "\<bar>q - r\<bar> \<le> r / 2 ^ 49"
    using percentile_constant[of 16 "0.05" r] r1 by auto
  obtain m where m: "percentile (replicate 16 r) 0.5 = JNum m" "\<bar>m - r\<bar> \<le> r / 2 ^ 49"
    using percentile_constant[of 16 "0.5" r] r1 by auto
  have pb: "filter (\<lambda>x. x < 3) (replicate 16 r) = []" using assms by simp
  have "statsForRatios (replicate 16 r) 0.05 3
          = \<lparr>count = 16, smin = JNum r, pX = JNum q, median = JNum m, pctBelow = 0\<rparr>"
    unfolding statsForRatios_def s Let_def q(1) m(1) pb by simp
  then show ?thesis using q(2) m(2) by blast
qed

lemma greySquare_collect:
  "\<exists>q m. c_stats (collectRatios greySquare default_opts
              (grid 10 10 (\<lambda>x y. 3 \<le> x \<and> x \<le> 6 \<and> 3 \<le> y \<and> y \<le> 6)) (255, 255, 255))
     = \<lparr>count = 16,
        smin = JNum (contrastRatioPixelVsBg 130 130 130 255 (255, 255, 255)),
        pX = JNum q, median = JNum m, pctBelow = 0\<rparr>
   \<and> \<bar>q - contrastRatioPixelVsBg 130 130 130 255 (255, 255, 255)\<bar>
       \<le> contrastRatioPixelVsBg 130 130 130 255 (255, 255, 255) / 2 ^ 49
   \<and> \<bar>m - contrastRatioPixelVsBg 130 130 130 255 (255, 255, 255)\<bar>
       \<le> contrastRatioPixelVsBg 130 130 130 255 (255, 255, 255) / 2 ^ 49
   \<and> c_pass (collectRatios greySquare default_opts
              (grid 10 10 (\<lambda>x y. 3 \<le> x \<and> x \<le> 6 \<and> 3 \<le> y \<and> y \<le> 6)) (255, 255, 255))"
proof -
  define r where "r = contrastRatioPixelVsBg 130 130 130 255 (255, 255, 255)"
  define msk where "msk = grid 10 10 (\<lambda>x y. (3::nat) \<le> x \<and> x \<le> 6 \<and> (3::nat) \<le> y \<and> y \<le> 6)"
  have rb: "3.8 \<le> r" "r \<le> 3.9" using gray_ratio by (simp_all add: r_def)
  have r3: "3 \<le> r" using rb by simp
  have o: "o_p default_opts = 0.05" "o_threshold default_opts = 3" "o_maxPctBelow default_opts = 2"
    by (simp_all add: default_opts_def)
  obtain q m where st: "statsForRatios (replicate 16 r) 0.05 3
                 = \<lparr>count = 16, smin = JNum r, pX = JNum q, median = JNum m, pctBelow = 0\<rparr>"
    and qm: "\<bar>q - r\<bar> \<le> r / 2 ^ 49" "\<bar>m - r\<bar> \<le> r / 2 ^ 49"
    using stats_constant[OF r3] by blast
  have "r / 2 ^ 49 \<le> 1 / 2" using rb by simp
  then have q3: "3 \<le> q" using qm(1) rb by linarith
  have cs: "c_stats (collectRatios greySquare default_opts msk (255, 255, 255))
      = \<lparr>count = 16, smin = JNum r, pX = JNum q, median = JNum m, pctBelow = 0\<rparr>"
    unfolding collectRatios_stats[THEN conjunct1] msk_def greySquare_ratios o
    using st unfolding r_def .
  have cp: "c_pass (collectRatios greySquare default_opts msk (255, 255, 255))"
    unfolding collectRatios_stats[THEN conjunct2] msk_def greySquare_ratios o
    using st q3 unfolding r_def by (simp add: passByStats_def)
  show ?thesis
    using cs cp qm unfolding r_def msk_def by blast
qed

lemma greySquare_result:
  "\<exists>res. analyzeOne greySquare default_opts = Some (Inr res)
     \<and> r_backgrounds res ''white''
         = Some (collectRatios greySquare default_opts
              (grid 10 10 (\<lambda>x y. 3 \<le> x \<and> x \<le> 6 \<and> 3 \<le> y \<and> y \<le> 6)) (255, 255, 255))"
proof -
  have w: "width greySquare = 10" "height greySquare = 10" by (simp_all add: greySquare_def)
  have b: "o_backgrounds default_opts = [(''white'', (255, 255, 255)), (''black'', (0, 0, 0))]"
    by (simp add: default_opts_def)
  show ?thesis
    by (simp add: analyzeOne_def w greySquare_masks b Let_def)
qed

text \<open>
  Claim C5, as the code has it. For the 10 by 10 image with the opaque (130,130,130) square
  on white, analysed with the options of a run without flags (distance 160, band radius 2,
  threshold 3), the 16 pixels of the square are sampled; each has the same ratio against
  white, between 3.8 and 3.9, so no ratio is below 3, the percentage below the threshold
  is 0 and the verdict for white is true. The percentile and the median are that ratio up to
  the rounding of the interpolation.
\<close>

theorem grey_square_scores:
  "\<exists>res c r q m bg fg band.
       analyzeOne greySquare default_opts = Some (Inr res)
     \<and> masks_batch greySquare default_opts = Some (bg, fg, band)
     \<and> r_backgrounds res ''white'' = Some c
     \<and> c = collectRatios greySquare default_opts band (255, 255, 255)
     \<and> fst (scanRatios greySquare band (255, 255, 255)) = replicate 16 r
     \<and> 3.8 \<le> r \<and> r \<le> 3.9
     \<and> c_stats c = \<lparr>count = 16, smin = JNum r, pX = JNum q, median = JNum m, pctBelow = 0\<rparr>
     \<and> \<bar>q - r\<bar> \<le> r / 2 ^ 49 \<and> \<bar>m - r\<bar> \<le> r / 2 ^ 49
     \<and> c_pass c"
proof -
  obtain res where a: "analyzeOne greySquare default_opts = Some (Inr res)"
    "r_backgrounds res ''white''
         = Some (collectRatios greySquare default_opts
              (grid 10 10 (\<lambda>x y. 3 \<le> x \<and> x \<le> 6 \<and> 3 \<le> y \<and> y \<le> 6)) (255, 255, 255))"
    using greySquare_result by blast
  show ?thesis
    using a greySquare_masks greySquare_ratios gray_ratio greySquare_collect by blast
qed

text \<open>
  The claim as stated fails at this input: the percentage below the threshold is 0, not
  100, the verdict for white is true, and the least ratio is above 3.
\<close>

theorem grey_square_counterexample:
  "\<exists>res c r.
       analyzeOne greySquare default_opts = Some (Inr res)
     \<and> r_backgrounds res ''white'' = Some c
     \<and> pctBelow (c_stats c) = 0
     \<and> smin (c_stats c) = JNum r \<and> 3 < r
     \<and> c_pass c"
proof -
  obtain res where a: "analyzeOne greySquare default_opts = Some (Inr res)"
    "r_backgrounds res ''white''
         = Some (collectRatios greySquare default_opts
              (grid 10 10 (\<lambda>x y. 3 \<le> x \<and> x \<le> 6 \<and> 3 \<le> y \<and> y \<le> 6)) (255, 255, 255))"
    using greySquare_result by blast
  define c where "c = collectRatios greySquare default_opts
              (grid 10 10 (\<lambda>x y. 3 \<le> x \<and> x \<le> 6 \<and> 3 \<le> y \<and> y \<le> 6)) (255, 255, 255)"
  define r where "r = contrastRatioPixelVsBg 130 130 130 255 (255, 255, 255)"
  have r3: "3 < r" using gray_ratio unfolding r_def by linarith
  obtain q m where st: "c_stats c = \<lparr>count = 16, smin = JNum r, pX = JNum q, median = JNum m, pctBelow = 0\<rparr>"
    and ps: "c_pass c"
    using greySquare_collect unfolding c_def r_def by blast
  have "analyzeOne greySquare default_opts = Some (Inr res)
     \<and> r_backgrounds res ''white'' = Some c
     \<and> pctBelow (c_stats c) = 0
     \<and> smin (c_stats c) = JNum r \<and> 3 < r
     \<and> c_pass c"
    using a r3 ps unfolding st c_def[symmetric] by simp
  then show ?thesis by blast
qed

subsection \<open>The alpha gate\<close>

lemma mcount_upt: "length (filter (\<lambda>i. m ! i) [0..<length m]) = mcount m"
proof -
  have "filter (\<lambda>v. v) (map (\<lambda>i. m ! i) [0..<length m]) = map (\<lambda>i. m ! i) (filter (\<lambda>i. m ! i) [0..<length m])"
    by (simp add: filter_map comp_def)
  then have "length (filter (\<lambda>v. v) (map (\<lambda>i. m ! i) [0..<length m])) = length (filter (\<lambda>i. m ! i) [0..<length m])"
    by simp
  then show ?thesis by (simp add: mcount_def map_nth)
qed

lemma mget_filter_upt: "length m = n \<Longrightarrow> filter (\<lambda>i. mget m i) [0..<n] = filter (\<lambda>i. m ! i) [0..<n]"
  by (rule filter_cong) (simp_all add: mget_def)

text \<open>The batch script scores every pixel of its band, whatever the alpha.\<close>

lemma batch_count:
  assumes "length band = width img * height img"
  shows "count (c_stats (collectRatios img opt band bgc)) = mcount band"
proof -
  have "length (fst (scanRatios img band bgc)) = mcount band"
    unfolding scanRatios_fst using assms mcount_upt[of band] mget_filter_upt[of band "length band"]
    by simp
  then show ?thesis
    unfolding collectRatios_stats[THEN conjunct1]
    by (auto simp: statsForRatios_def Let_def)
qed

lemma score_web_counts:
  "wbandCount (w_stats (score_web img opt msk)) = mcount msk
   \<and> wcount (w_stats (score_web img opt msk)) = length (sampled_web img opt msk)
   \<and> length (w_mask (score_web img opt msk)) = width img * height img
   \<and> (\<forall>i<width img * height img. w_mask (score_web img opt msk) ! i \<longrightarrow> i \<in> set (sampled_web img opt msk))"
  by (simp add: score_web_def stats_web_def Let_def)

lemma sampled_web_char:
  assumes "length msk = width img * height img"
  shows "sampled_web img opt msk
     = filter (\<lambda>i. msk ! i \<and> o_minAlpha opt \<le> int (unat (chan_a (pixels img ! i))))
         [0..<width img * height img]"
  unfolding sampled_web_def using assms by (intro filter_cong) (auto simp: mget_def)

lemma faintDot_web:
  "masks_web faintDot default_opts
     = Some ([True, True, True, True, False, True, True, True, True],
             [False, False, False, False, True, False, False, False, False],
             [False, False, False, False, True, False, False, False, False])"
  by code_simp

lemma faintDot_sampled:
  "sampled_web faintDot default_opts [False, False, False, False, True, False, False, False, False] = []"
  by code_simp

lemma faintDot_alpha: "chan_a (pixels faintDot ! 4) = 100 \<and> o_minAlpha default_opts = 200"
  by (simp add: faintDot_def default_opts_def grid_nth)

lemma score_web_char:
  assumes "length msk = width img * height img"
  shows "w_stats (score_web img opt msk)
           = stats_web (map (ratioAt_web img opt)
                          (filter (\<lambda>i. msk ! i \<and> o_minAlpha opt \<le> int (unat (chan_a (pixels img ! i))))
                             [0..<width img * height img]))
               (o_p opt) (o_threshold opt) (mcount msk)
       \<and> w_pass (score_web img opt msk)
           = pass_web (w_stats (score_web img opt msk)) (o_threshold opt) (o_maxPctBelow opt)
       \<and> (\<forall>i<width img * height img.
             w_mask (score_web img opt msk) ! i
               = (msk ! i \<and> o_minAlpha opt \<le> int (unat (chan_a (pixels img ! i)))
                  \<and> ratioAt_web img opt i < o_threshold opt))"
proof -
  note sm = sampled_web_char[OF assms, of opt]
  have a: "w_stats (score_web img opt msk)
           = stats_web (map (ratioAt_web img opt) (sampled_web img opt msk))
               (o_p opt) (o_threshold opt) (mcount msk)"
    by (simp add: score_web_def Let_def)
  have b: "w_pass (score_web img opt msk)
           = pass_web (w_stats (score_web img opt msk)) (o_threshold opt) (o_maxPctBelow opt)"
    by (simp add: score_web_def Let_def)
  have c: "\<forall>i<width img * height img.
             w_mask (score_web img opt msk) ! i
               = (i \<in> set (sampled_web img opt msk) \<and> ratioAt_web img opt i < o_threshold opt)"
    by (simp add: score_web_def Let_def)
  have d: "\<forall>i<width img * height img.
             (i \<in> set (sampled_web img opt msk))
               = (msk ! i \<and> o_minAlpha opt \<le> int (unat (chan_a (pixels img ! i))))"
    unfolding sm by simp
  show ?thesis using a b c d unfolding sm by simp
qed

text \<open>
  Claim C7, as the browser page has it. In every sample mode the statistics and the verdict
  are those of the ratios of the pixels of the sample mask whose alpha is at least
  \<^verbatim>\<open>minAlpha\<close>, taken in the order of their indices, and a pixel is in the mask of failing
  pixels exactly when it is one of these and its ratio is below the threshold. A pixel with
  a smaller alpha therefore gives no ratio and cannot fail, but it stays in the sample mask
  and in the count of its pixels that is reported as \<^verbatim>\<open>bandCount\<close>.
\<close>

theorem alpha_gate_on_ratios:
  assumes "image_ok img"
  shows "\<exists>bg band msk w.
            masks_web img opt = Some (bg, band, msk)
          \<and> analyze img opt = Some w
          \<and> w_stats w
              = stats_web (map (ratioAt_web img opt)
                             (filter (\<lambda>i. msk ! i \<and> o_minAlpha opt \<le> int (unat (chan_a (pixels img ! i))))
                                [0..<width img * height img]))
                  (o_p opt) (o_threshold opt) (mcount msk)
          \<and> w_pass w = pass_web (w_stats w) (o_threshold opt) (o_maxPctBelow opt)
          \<and> wbandCount (w_stats w) = mcount msk
          \<and> wcount (w_stats w)
              = length (filter (\<lambda>i. msk ! i \<and> o_minAlpha opt \<le> int (unat (chan_a (pixels img ! i))))
                         [0..<width img * height img])
          \<and> length (w_mask w) = width img * height img
          \<and> (\<forall>i<width img * height img.
                w_mask w ! i
                  = (msk ! i \<and> o_minAlpha opt \<le> int (unat (chan_a (pixels img ! i)))
                     \<and> ratioAt_web img opt i < o_threshold opt))"
proof -
  obtain bg band msk where w: "masks_web img opt = Some (bg, band, msk)"
    and lm: "length msk = width img * height img"
    using masks_web_subset[OF assms, of opt] by blast
  have an: "analyze img opt = Some (score_web img opt msk)"
    using w by (simp add: analyze_def)
  note sc = score_web_counts[of img opt msk]
  note sm = sampled_web_char[OF lm, of opt]
  note ch = score_web_char[OF lm, of opt]
  have t1: "wbandCount (w_stats (score_web img opt msk)) = mcount msk" using sc by simp
  have t2: "wcount (w_stats (score_web img opt msk))
              = length (filter (\<lambda>i. msk ! i \<and> o_minAlpha opt \<le> int (unat (chan_a (pixels img ! i))))
                         [0..<width img * height img])"
    using sc sm by simp
  have t3: "length (w_mask (score_web img opt msk)) = width img * height img" using sc by simp
  show ?thesis
    by (rule exI[of _ bg], rule exI[of _ band], rule exI[of _ msk],
        rule exI[of _ "score_web img opt msk"])
      (intro conjI, rule w, rule an, rule ch[THEN conjunct1], rule ch[THEN conjunct2, THEN conjunct1],
        rule t1, rule t2, rule t3, rule ch[THEN conjunct2, THEN conjunct2])
qed

theorem alpha_gate_on_ratios_witness:
  "image_ok faintDot
   \<and> (\<exists>bg band msk w.
            masks_web faintDot default_opts = Some (bg, band, msk)
          \<and> analyze faintDot default_opts = Some w
          \<and> w_stats w
              = stats_web (map (ratioAt_web faintDot default_opts)
                             (filter (\<lambda>i. msk ! i
                                          \<and> o_minAlpha default_opts
                                              \<le> int (unat (chan_a (pixels faintDot ! i))))
                                [0..<width faintDot * height faintDot]))
                  (o_p default_opts) (o_threshold default_opts) (mcount msk)
          \<and> w_pass w = pass_web (w_stats w) (o_threshold default_opts) (o_maxPctBelow default_opts)
          \<and> wbandCount (w_stats w) = mcount msk
          \<and> wcount (w_stats w)
              = length (filter (\<lambda>i. msk ! i
                                   \<and> o_minAlpha default_opts \<le> int (unat (chan_a (pixels faintDot ! i))))
                         [0..<width faintDot * height faintDot])
          \<and> length (w_mask w) = width faintDot * height faintDot
          \<and> (\<forall>i<width faintDot * height faintDot.
                w_mask w ! i
                  = (msk ! i \<and> o_minAlpha default_opts \<le> int (unat (chan_a (pixels faintDot ! i)))
                     \<and> ratioAt_web faintDot default_opts i < o_threshold default_opts)))"
  using faintDot_ok alpha_gate_on_ratios[OF faintDot_ok, of default_opts] by (rule conjI)

text \<open>
  The claim as stated fails: in the 3 by 3 image the centre pixel has alpha 100, below the
  minimum alpha 200. It is in the sample mask and is the one pixel counted in
  \<^verbatim>\<open>bandCount\<close>, although it gives no ratio.
\<close>

theorem alpha_gate_counterexample:
  "chan_a (pixels faintDot ! 4) = 100 \<and> o_minAlpha default_opts = 200
   \<and> masks_web faintDot default_opts
       = Some ([True, True, True, True, False, True, True, True, True],
               [False, False, False, False, True, False, False, False, False],
               [False, False, False, False, True, False, False, False, False])
   \<and> (\<exists>w. analyze faintDot default_opts = Some w
          \<and> wbandCount (w_stats w) = 1 \<and> wcount (w_stats w) = 0)"
proof -
  have an: "analyze faintDot default_opts
      = Some (score_web faintDot default_opts [False, False, False, False, True, False, False, False, False])"
    using faintDot_web by (simp add: analyze_def)
  have c1: "mcount [False, False, False, False, True, False, False, False, False] = 1"
    by (simp add: mcount_def)
  have web: "\<exists>w. analyze faintDot default_opts = Some w
          \<and> wbandCount (w_stats w) = 1 \<and> wcount (w_stats w) = 0"
    using an score_web_counts[of faintDot default_opts
        "[False, False, False, False, True, False, False, False, False]"] faintDot_sampled c1
    by simp
  show ?thesis using faintDot_alpha faintDot_web web by simp
qed

subsection \<open>Order of the fill and of the scan\<close>

text \<open>The scan of \<^verbatim>\<open>collectRatios\<close> visits the pixels in the order of their indices and
  replaces the worst pixel only by one with a strictly smaller ratio.\<close>

lemma scanCell_idx:
  "scanCell W raw msk bgc (k mod W, k div W) (ratios, worst, wp) =
     (if \<not> mget msk k then (ratios, worst, wp)
      else (case raw ! k of Pixel r g b a \<Rightarrow>
              let cr = contrastRatioPixelVsBg (unat r) (unat g) (unat b) (unat a) bgc
              in if (case worst of None \<Rightarrow> True | Some w \<Rightarrow> cr < w)
                 then (ratios @ [cr], Some cr, Some (Pixel r g b a, k mod W, k div W))
                 else (ratios @ [cr], worst, wp)))"
  by (simp add: scanCell_def Let_def)

lemma scan_inv_step:
  assumes "scan_inv img msk bgc k acc"
  shows "scan_inv img msk bgc (Suc k)
           (scanCell (width img) (pixels img) msk bgc (k mod width img, k div width img) acc)"
proof -
  obtain ratios worst wp where acc: "acc = (ratios, worst, wp)" by (cases acc)
  obtain r g b a where px: "pixels img ! k = Pixel r g b a" by (cases "pixels img ! k")
  define cr where "cr = contrastRatioPixelVsBg (unat r) (unat g) (unat b) (unat a) bgc"
  have rk: "ratioAt img bgc k = cr" by (simp add: ratioAt_def px cr_def)
  show ?thesis
  proof (cases "mget msk k")
    case False
    have st: "scanCell (width img) (pixels img) msk bgc (k mod width img, k div width img) acc = acc"
      unfolding acc scanCell_idx using False by simp
    have "\<And>j. first_least img msk bgc k j \<Longrightarrow> first_least img msk bgc (Suc k) j"
      using False by (auto simp: first_least_def less_Suc_eq)
    moreover have "(\<forall>i<k. \<not> mget msk i) \<Longrightarrow> (\<forall>i<Suc k. \<not> mget msk i)"
      using False by (auto simp: less_Suc_eq)
    ultimately have "scan_inv img msk bgc (Suc k) acc"
      using assms unfolding acc scan_inv_def by auto
    then show ?thesis unfolding st .
  next
    case True
    show ?thesis
    proof (cases worst)
      case None
      then have no: "\<forall>i<k. \<not> mget msk i" using assms unfolding acc scan_inv_def by auto
      have st: "scanCell (width img) (pixels img) msk bgc (k mod width img, k div width img) acc
          = (ratios @ [cr], Some cr, Some (Pixel r g b a, k mod width img, k div width img))"
        unfolding acc scanCell_idx using True None by (simp add: px cr_def Let_def)
      have "first_least img msk bgc (Suc k) k"
        using True no by (auto simp: first_least_def less_Suc_eq)
      then show ?thesis unfolding st scan_inv_def using rk px by auto
    next
      case (Some w)
      then obtain j where j: "first_least img msk bgc k j" "w = ratioAt img bgc j"
        "wp = Some (pixels img ! j, j mod width img, j div width img)"
        using assms unfolding acc scan_inv_def by auto
      show ?thesis
      proof (cases "cr < w")
        case lt: True
        have st: "scanCell (width img) (pixels img) msk bgc (k mod width img, k div width img) acc
            = (ratios @ [cr], Some cr, Some (Pixel r g b a, k mod width img, k div width img))"
          unfolding acc scanCell_idx using True Some lt by (simp add: px cr_def Let_def)
        have "first_least img msk bgc (Suc k) k"
          unfolding first_least_def
        proof (intro conjI allI impI)
          show "k < Suc k" by simp
          show "mget msk k" by (rule True)
          fix i assume i: "i < Suc k" "mget msk i"
          show "ratioAt img bgc k \<le> ratioAt img bgc i"
          proof (cases "i = k")
            case True then show ?thesis by simp
          next
            case False
            then have "i < k" using i(1) by simp
            then have "ratioAt img bgc j \<le> ratioAt img bgc i" using j(1) i(2) by (simp add: first_least_def)
            then show ?thesis using lt j(2) rk by linarith
          qed
          assume e: "ratioAt img bgc i = ratioAt img bgc k"
          show "k \<le> i"
          proof (rule ccontr)
            assume "\<not> k \<le> i"
            then have "i < k" by simp
            then have "ratioAt img bgc j \<le> ratioAt img bgc i" using j(1) i(2) by (simp add: first_least_def)
            then show False using lt j(2) rk e by linarith
          qed
        qed
        then show ?thesis unfolding st scan_inv_def using rk px by auto
      next
        case ge: False
        have st: "scanCell (width img) (pixels img) msk bgc (k mod width img, k div width img) acc
            = (ratios @ [cr], worst, wp)"
          unfolding acc scanCell_idx using True Some ge by (simp add: px cr_def Let_def)
        have jk: "j < k" using j(1) by (simp add: first_least_def)
        have "first_least img msk bgc (Suc k) j"
          unfolding first_least_def
        proof (intro conjI allI impI)
          show "j < Suc k" using jk by simp
          show "mget msk j" using j(1) by (simp add: first_least_def)
          fix i assume i: "i < Suc k" "mget msk i"
          show "ratioAt img bgc j \<le> ratioAt img bgc i"
          proof (cases "i = k")
            case True then show ?thesis using ge j(2) rk by simp
          next
            case False
            then have "i < k" using i(1) by simp
            then show ?thesis using j(1) i(2) by (simp add: first_least_def)
          qed
          assume e: "ratioAt img bgc i = ratioAt img bgc j"
          show "j \<le> i"
          proof (cases "i = k")
            case True then show ?thesis using jk by simp
          next
            case False
            then have "i < k" using i(1) by simp
            then show ?thesis using j(1) i(2) e by (simp add: first_least_def)
          qed
        qed
        then show ?thesis unfolding st scan_inv_def using j(2,3) Some by auto
      qed
    qed
  qed
qed

lemma scan_inv_fold:
  "scan_inv img msk bgc k
     (fold (\<lambda>i. scanCell (width img) (pixels img) msk bgc (i mod width img, i div width img))
        [0..<k] ([], None, None))"
proof (induction k)
  case 0
  show ?case by (simp add: scan_inv_def)
next
  case (Suc k)
  show ?case using scan_inv_step[OF Suc] by simp
qed

lemma scanRatios_inv:
  "scan_inv img msk bgc (width img * height img) (scanRatios img msk bgc)"
proof -
  have "scanRatios img msk bgc
      = fold (\<lambda>i. scanCell (width img) (pixels img) msk bgc (i mod width img, i div width img))
          [0..<width img * height img] ([], None, None)"
    by (simp add: scanRatios_def grid_coords fold_map comp_def)
  then show ?thesis using scan_inv_fold[of img msk bgc "width img * height img"] by simp
qed

lemma collect_worst:
  "((\<forall>i<width img * height img. \<not> mget msk i)
      \<and> c_worst (collectRatios img opt msk bgc) = None
      \<and> c_worstPixel (collectRatios img opt msk bgc) = None)
   \<or> (\<exists>j. first_least img msk bgc (width img * height img) j
          \<and> c_worst (collectRatios img opt msk bgc) = Some (ratioAt img bgc j)
          \<and> c_worstPixel (collectRatios img opt msk bgc)
              = Some (pixels img ! j, j mod width img, j div width img))"
proof -
  obtain rs w wp where sr: "scanRatios img msk bgc = (rs, w, wp)" by (cases "scanRatios img msk bgc")
  have c: "c_worst (collectRatios img opt msk bgc) = w" "c_worstPixel (collectRatios img opt msk bgc) = wp"
    by (simp_all add: collectRatios_def sr Let_def)
  show ?thesis using scanRatios_inv[of img msk bgc] unfolding sr scan_inv_def c by auto
qed

lemma scanRatios_order:
  "fst (scanRatios img msk bgc)
     = map (ratioAt img bgc) (filter (\<lambda>i. mget msk i) [0..<width img * height img])"
  unfolding scanRatios_fst ratioAt_def ..

text \<open>The two functions after the fill, and the options they do not read.\<close>

lemma analyzeOne_after_fill:
  assumes "0 < width img" "0 < height img"
    and "floodFill (width img) (height img) (nearAt opt (pixels img)) = Some bg"
  shows "analyzeOne img opt = Some (Inr (batch_result img opt bg))"
  using assms by (simp add: analyzeOne_def masks_batch_def batch_result_def Let_def)

lemma analyze_after_fill:
  assumes "floodFill_web (width img) (height img) (nearAt opt (pixels img)) = Some bg"
  shows "analyze img opt = Some (web_result img opt bg)"
  using assms
  by (simp add: analyze_def masks_web_def segment_web_def web_result_def Let_def)

lemma batch_result_backgrounds:
  "r_backgrounds (batch_result img opt bg)
     = fold (\<lambda>b m. m(fst b \<mapsto>
                collectRatios img opt
                  (bandMask (width img) (height img) bg (fgMask (width img) (height img) bg)
                     (o_bandRadius opt)) (snd b)))
         (o_backgrounds opt) Map.empty"
  by (simp add: batch_result_def Let_def)

lemma nearAt_reads:
  assumes "o_nearBgDist opt' = o_nearBgDist opt" "o_segBg opt' = o_segBg opt"
    "o_alphaBg opt' = o_alphaBg opt"
  shows "nearAt opt' = nearAt opt"
  by (intro ext) (simp only: nearAt_def assms)

lemma analyzeOne_reads:
  assumes "batch_reads opt' = batch_reads opt"
  shows "analyzeOne img opt' = analyzeOne img opt"
proof -
  have e: "o_nearBgDist opt' = o_nearBgDist opt" "o_bandRadius opt' = o_bandRadius opt"
    "o_threshold opt' = o_threshold opt" "o_maxPctBelow opt' = o_maxPctBelow opt"
    "o_p opt' = o_p opt" "o_requireBoth opt' = o_requireBoth opt"
    "o_backgrounds opt' = o_backgrounds opt" "o_segBg opt' = o_segBg opt"
    "o_alphaBg opt' = o_alphaBg opt"
    using assms by (simp_all add: batch_reads_def)
  have n: "nearAt opt' = nearAt opt" using e by (intro nearAt_reads) simp_all
  have c: "collectRatios img opt' = collectRatios img opt"
    by (intro ext) (simp only: collectRatios_def e)
  show ?thesis unfolding analyzeOne_def masks_batch_def n c e ..
qed

lemma analyze_reads:
  assumes "web_reads opt' = web_reads opt"
  shows "analyze img opt' = analyze img opt"
proof -
  have e: "o_nearBgDist opt' = o_nearBgDist opt" "o_bandRadius opt' = o_bandRadius opt"
    "o_threshold opt' = o_threshold opt" "o_maxPctBelow opt' = o_maxPctBelow opt"
    "o_p opt' = o_p opt" "o_segBg opt' = o_segBg opt" "o_alphaBg opt' = o_alphaBg opt"
    "o_bg opt' = o_bg opt" "o_minAlpha opt' = o_minAlpha opt"
    "o_sampleMode opt' = o_sampleMode opt" "o_strokeLumaMax opt' = o_strokeLumaMax opt"
    using assms by (simp_all add: web_reads_def)
  have n: "nearAt opt' = nearAt opt" using e by (intro nearAt_reads) simp_all
  have s: "segment_web img opt' = segment_web img opt" unfolding segment_web_def n ..
  have b: "band_web img opt' = band_web img opt" by (intro ext) (simp only: band_web_def e)
  have m: "sampleMask_web img opt' = sampleMask_web img opt"
    by (intro ext) (simp only: sampleMask_web_def e)
  have r: "ratioAt_web img opt' = ratioAt_web img opt" by (intro ext) (simp only: ratioAt_web_def e)
  have sm: "sampled_web img opt' = sampled_web img opt" by (intro ext) (simp only: sampled_web_def e)
  have sc: "score_web img opt' = score_web img opt"
    by (intro ext) (simp only: score_web_def e r sm)
  show ?thesis unfolding analyze_def masks_web_def s b m sc ..
qed

lemma fold_upd_Some:
  "fold (\<lambda>b m. m(fst b \<mapsto> f b)) bs m0 l = Some c
   \<Longrightarrow> m0 l = Some c \<or> (\<exists>b\<in>set bs. fst b = l \<and> c = f b)"
proof (induction bs arbitrary: m0)
  case Nil
  then show ?case by simp
next
  case (Cons b bs)
  have "fold (\<lambda>b m. m(fst b \<mapsto> f b)) bs (m0(fst b \<mapsto> f b)) l = Some c"
    using Cons.prems by (simp only: fold_simps o_apply)
  from Cons.IH[OF this]
  show ?case by (auto split: if_splits)
qed

text \<open>
  Claim C9. On a decoded image both analyses return, and their results are determined by
  the pixels and the options alone. The order in which the fill visits the pixels is not
  observable: the stack of the batch script and the queue of the browser page return the
  same mask, the set of border-connected pixels, and each result is the rest of its function
  applied to that mask. A second run returns the same result, also with other values for
  the options that the call site does not read. The ratios of a background are listed in
  the row-major order of the band, and the worst pixel is the first pixel in that order
  among those with the least ratio, so that equal ratios are told apart by position only.
\<close>

theorem analysis_is_deterministic:
  assumes "image_ok img"
  shows "\<exists>bg band r w.
           length bg = width img * height img
         \<and> (\<forall>x<width img. \<forall>y<height img.
               bg ! (y * width img + x)
                 = reach (width img) (height img) (nearAt opt (pixels img)) x y)
         \<and> floodFill (width img) (height img) (nearAt opt (pixels img)) = Some bg
         \<and> floodFill_web (width img) (height img) (nearAt opt (pixels img)) = Some bg
         \<and> analyzeOne img opt = Some (Inr r) \<and> r = batch_result img opt bg
         \<and> analyze img opt = Some w \<and> w = web_result img opt bg
         \<and> (\<forall>opt'. batch_reads opt' = batch_reads opt \<longrightarrow> analyzeOne img opt' = Some (Inr r))
         \<and> (\<forall>opt'. web_reads opt' = web_reads opt \<longrightarrow> analyze img opt' = Some w)
         \<and> band = bandMask (width img) (height img) bg (fgMask (width img) (height img) bg)
                    (o_bandRadius opt)
         \<and> (\<forall>l c. r_backgrounds r l = Some c \<longrightarrow>
               (\<exists>b\<in>set (o_backgrounds opt).
                   fst b = l \<and> c = collectRatios img opt band (snd b)
                 \<and> fst (scanRatios img band (snd b))
                     = map (ratioAt img (snd b))
                         (filter (\<lambda>i. mget band i) [0..<width img * height img])
                 \<and> ((\<forall>i<width img * height img. \<not> mget band i)
                       \<and> c_worst c = None \<and> c_worstPixel c = None
                     \<or> (\<exists>j. first_least img band (snd b) (width img * height img) j
                            \<and> c_worst c = Some (ratioAt img (snd b) j)
                            \<and> c_worstPixel c
                                = Some (pixels img ! j, j mod width img, j div width img)))))"
proof -
  let ?W = "width img" and ?H = "height img" and ?near = "nearAt opt (pixels img)"
  have W: "0 < ?W" and H: "0 < ?H" using assms by (simp_all add: image_ok_def)
  obtain bg where b: "floodFill ?W ?H ?near = Some bg" "length bg = ?W * ?H"
    "\<forall>x<?W. \<forall>y<?H. bg ! (y * ?W + x) = reach ?W ?H ?near x y"
    using floodFill_reach[OF W H, of ?near] by blast
  have w: "floodFill_web ?W ?H ?near = Some bg"
    using floodFill_same[OF W H, of ?near] b(1) by auto
  define band where "band = bandMask ?W ?H bg (fgMask ?W ?H bg) (o_bandRadius opt)"
  define r where "r = batch_result img opt bg"
  define wr where "wr = web_result img opt bg"
  have a1: "analyzeOne img opt = Some (Inr r)"
    unfolding r_def by (rule analyzeOne_after_fill[OF W H b(1)])
  have a2: "analyze img opt = Some wr"
    unfolding wr_def by (rule analyze_after_fill[OF w])
  have r1: "\<forall>opt'. batch_reads opt' = batch_reads opt \<longrightarrow> analyzeOne img opt' = Some (Inr r)"
    using analyzeOne_reads[of _ opt img] a1 by simp
  have r2: "\<forall>opt'. web_reads opt' = web_reads opt \<longrightarrow> analyze img opt' = Some wr"
    using analyze_reads[of _ opt img] a2 by simp
  have wp: "\<forall>l c. r_backgrounds r l = Some c \<longrightarrow>
               (\<exists>b\<in>set (o_backgrounds opt).
                   fst b = l \<and> c = collectRatios img opt band (snd b)
                 \<and> fst (scanRatios img band (snd b))
                     = map (ratioAt img (snd b))
                         (filter (\<lambda>i. mget band i) [0..<?W * ?H])
                 \<and> ((\<forall>i<?W * ?H. \<not> mget band i)
                       \<and> c_worst c = None \<and> c_worstPixel c = None
                     \<or> (\<exists>j. first_least img band (snd b) (?W * ?H) j
                            \<and> c_worst c = Some (ratioAt img (snd b) j)
                            \<and> c_worstPixel c = Some (pixels img ! j, j mod ?W, j div ?W))))"
  proof (intro allI impI)
    fix l c assume "r_backgrounds r l = Some c"
    then have "fold (\<lambda>b m. m(fst b \<mapsto> collectRatios img opt band (snd b)))
                 (o_backgrounds opt) Map.empty l = Some c"
      unfolding r_def batch_result_backgrounds band_def .
    then obtain b where bb: "b \<in> set (o_backgrounds opt)" "fst b = l"
      "c = collectRatios img opt band (snd b)"
      using fold_upd_Some[of "\<lambda>b. collectRatios img opt band (snd b)" "o_backgrounds opt" Map.empty l c]
      by auto
    show "\<exists>b\<in>set (o_backgrounds opt).
                   fst b = l \<and> c = collectRatios img opt band (snd b)
                 \<and> fst (scanRatios img band (snd b))
                     = map (ratioAt img (snd b))
                         (filter (\<lambda>i. mget band i) [0..<?W * ?H])
                 \<and> ((\<forall>i<?W * ?H. \<not> mget band i)
                       \<and> c_worst c = None \<and> c_worstPixel c = None
                     \<or> (\<exists>j. first_least img band (snd b) (?W * ?H) j
                            \<and> c_worst c = Some (ratioAt img (snd b) j)
                            \<and> c_worstPixel c = Some (pixels img ! j, j mod ?W, j div ?W)))"
      using bb scanRatios_order[of img band "snd b"] collect_worst[of img band opt "snd b"]
      by (intro bexI[of _ b]) simp_all
  qed
  show ?thesis
    by (rule exI[of _ bg], rule exI[of _ band], rule exI[of _ r], rule exI[of _ wr])
      (intro conjI, rule b(2), rule b(3), rule b(1), rule w, rule a1, rule r_def, rule a2,
        rule wr_def, rule r1, rule r2, rule band_def, rule wp)
qed

theorem analysis_is_deterministic_witness:
  "image_ok faintDot
   \<and> (\<exists>bg band r w.
           length bg = width faintDot * height faintDot
         \<and> (\<forall>x<width faintDot. \<forall>y<height faintDot.
               bg ! (y * width faintDot + x)
                 = reach (width faintDot) (height faintDot)
                     (nearAt default_opts (pixels faintDot)) x y)
         \<and> floodFill (width faintDot) (height faintDot) (nearAt default_opts (pixels faintDot))
             = Some bg
         \<and> floodFill_web (width faintDot) (height faintDot) (nearAt default_opts (pixels faintDot))
             = Some bg
         \<and> analyzeOne faintDot default_opts = Some (Inr r)
         \<and> r = batch_result faintDot default_opts bg
         \<and> analyze faintDot default_opts = Some w \<and> w = web_result faintDot default_opts bg
         \<and> (\<forall>opt'. batch_reads opt' = batch_reads default_opts
                  \<longrightarrow> analyzeOne faintDot opt' = Some (Inr r))
         \<and> (\<forall>opt'. web_reads opt' = web_reads default_opts \<longrightarrow> analyze faintDot opt' = Some w)
         \<and> band = bandMask (width faintDot) (height faintDot) bg
                    (fgMask (width faintDot) (height faintDot) bg) (o_bandRadius default_opts)
         \<and> (\<forall>l c. r_backgrounds r l = Some c \<longrightarrow>
               (\<exists>b\<in>set (o_backgrounds default_opts).
                   fst b = l \<and> c = collectRatios faintDot default_opts band (snd b)
                 \<and> fst (scanRatios faintDot band (snd b))
                     = map (ratioAt faintDot (snd b))
                         (filter (\<lambda>i. mget band i) [0..<width faintDot * height faintDot])
                 \<and> ((\<forall>i<width faintDot * height faintDot. \<not> mget band i)
                       \<and> c_worst c = None \<and> c_worstPixel c = None
                     \<or> (\<exists>j. first_least faintDot band (snd b) (width faintDot * height faintDot) j
                            \<and> c_worst c = Some (ratioAt faintDot (snd b) j)
                            \<and> c_worstPixel c
                                = Some (pixels faintDot ! j, j mod width faintDot,
                                        j div width faintDot))))))"
  using faintDot_ok analysis_is_deterministic[OF faintDot_ok, of default_opts] by (rule conjI)

end
